theory Spec2Isabelle
  imports Main "HOL-Library.Word"
begin

section \<open>Data model of the replicated write log\<close>

text \<open>
  The embedding follows \<^verbatim>\<open>src/librbd/cache/ReplicatedWriteLog.cc\<close>. Objects held through
  \<^verbatim>\<open>std::shared_ptr\<close> (log entries, sync points, flush requests) live in explicit stores
  indexed by a natural number, the model's form of an address; a pointer is such a number
  and a nullable pointer an \<open>option\<close>. An \<^verbatim>\<open>assert\<close> that fails aborts the process:
  the model returns \<open>Inl AssertionFailed\<close>. A loop that may run forever is a
  \<^theory_text>\<open>partial_function\<close> into \<open>option\<close>; its caller passes \<open>None\<close> on as
  \<open>Inl Diverged\<close>.
\<close>

type_synonym u32 = "32 word"
type_synonym u64 = "64 word"

datatype rwl_error = AssertionFailed | NullDereference | DivideByZero | Diverged

text \<open>A block extent names a range by its first and its last byte, both inclusive.\<close>

record BlockExtent =
  block_start :: u64
  block_end :: u64

definition block_extent_of_bytes :: "u64 \<Rightarrow> u64 \<Rightarrow> BlockExtent" where
  "block_extent_of_bytes offset_bytes length_bytes =
     \<lparr>block_start = offset_bytes, block_end = offset_bytes + length_bytes - 1\<rparr>"

text \<open>
  The persistent form of a log entry. The structure is declared in the header
  \<^verbatim>\<open>ReplicatedWriteLog.h\<close>; the fields are the ones this file reads and writes.
\<close>

record WriteLogPmemEntry =
  sync_gen_number :: u64
  write_sequence_number :: u64
  image_offset_bytes :: u64
  write_bytes :: u64
  write_data :: nat
  entry_valid :: bool
  sync_point :: bool
  sequenced :: bool
  has_data :: bool
  unmap :: bool
  entry_index :: u32

text \<open>
  Modelled from the spec: \<^verbatim>\<open>WriteLogPmemEntry::is_sync_point\<close> and
  \<^verbatim>\<open>WriteLogPmemEntry::is_write\<close> are defined in the absent header. The spec gives an
  entry the kind write or sync-point and the flags valid, sync_point, has_data, sequenced
  and unmap; a sync point is an entry with the sync_point flag, a write one that is
  neither a sync point nor an unmap.
\<close>

definition is_sync_point :: "WriteLogPmemEntry \<Rightarrow> bool" where
  "is_sync_point e = sync_point e"

definition is_write :: "WriteLogPmemEntry \<Rightarrow> bool" where
  "is_write e = (\<not> sync_point e \<and> \<not> unmap e)"

text \<open>
  Modelled from the spec: the constructor \<^verbatim>\<open>WriteLogPmemEntry(image_offset_bytes,
  write_bytes)\<close> of the absent header. A fresh entry carries the offset and the length it
  is given, no flag and zeroed numbers.
\<close>

definition new_WriteLogPmemEntry :: "u64 \<Rightarrow> u64 \<Rightarrow> WriteLogPmemEntry" where
  "new_WriteLogPmemEntry off len =
     \<lparr>sync_gen_number = 0, write_sequence_number = 0, image_offset_bytes = off,
      write_bytes = len, write_data = 0, entry_valid = False, sync_point = False,
      sequenced = False, has_data = False, unmap = False, entry_index = 0\<rparr>"

text \<open>
  The in-memory twin of a log entry. \<^verbatim>\<open>GenericLogEntry\<close>, \<^verbatim>\<open>WriteLogEntry\<close> and
  \<^verbatim>\<open>SyncPointLogEntry\<close> are one record here: the members of a write entry
  (\<open>sync_point_entry\<close> to \<open>flushed\<close>) and those of a sync point entry (\<open>m_writes\<close>,
  \<open>m_bytes\<close>, \<open>m_writes_completed\<close>) stand side by side.
\<close>

record GenericLogEntry =
  ram_entry :: WriteLogPmemEntry
  log_entry_index :: u32
  completed :: bool
  sync_point_entry :: "nat option"
  referring_map_entries :: int
  reader_count :: int
  flushing :: bool
  flushed :: bool
  m_writes :: nat
  m_bytes :: nat
  m_writes_completed :: nat

definition new_WriteLogEntry :: "nat option \<Rightarrow> u64 \<Rightarrow> u64 \<Rightarrow> GenericLogEntry" where
  "new_WriteLogEntry sp off len =
     \<lparr>ram_entry = new_WriteLogPmemEntry off len, log_entry_index = 0, completed = False,
      sync_point_entry = sp, referring_map_entries = 0, reader_count = 0,
      flushing = False, flushed = False, m_writes = 0, m_bytes = 0,
      m_writes_completed = 0\<rparr>"

definition new_SyncPointLogEntry :: "u64 \<Rightarrow> GenericLogEntry" where
  "new_SyncPointLogEntry gen =
     \<lparr>ram_entry = (new_WriteLogPmemEntry 0 0)\<lparr>sync_gen_number := gen, sync_point := True\<rparr>,
      log_entry_index = 0, completed = False,
      sync_point_entry = None, referring_map_entries = 0, reader_count = 0,
      flushing = False, flushed = False, m_writes = 0, m_bytes = 0,
      m_writes_completed = 0\<rparr>"

definition WriteLogEntry_block_extent :: "GenericLogEntry \<Rightarrow> BlockExtent" where
  "WriteLogEntry_block_extent e =
     block_extent_of_bytes (image_offset_bytes (ram_entry e)) (write_bytes (ram_entry e))"

text \<open>An entry of the write-log map: a block extent and the log entry it points at.\<close>

record WriteLogMapEntry =
  block_extent :: BlockExtent
  log_entry :: "nat option"

text \<open>
  Contexts (completion callbacks) are closures in the source; the model names each
  closure the modelled functions create by what it will do when completed.
\<close>

datatype ctx =
    UserRequest nat
  | FlushRequest nat
  | WriteRequest nat
  | NullFlushFinish
  | PriorPersistedSub nat
  | ActivatePriorPersisted nat
  | ActivateSyncPointPersist nat
  | GuardedFlush nat
  | GuardedWrite nat
  | ProcessWork

text \<open>
  What a function does to the world outside the modelled state, in the order it does it.
\<close>

datatype effect =
    Complete ctx int
  | QueueWork ctx
  | DetainGuardedRequest BlockExtent ctx bool
  | ReleaseGuardedRequest nat
  | LowerAioWritesame u64 u64 "8 word list" int ctx

text \<open>
  A sync point. The two \<^verbatim>\<open>C_Gather\<close> objects are kept as the number of subs created
  on each and, for \<open>m_sync_point_persist\<close>, the flush request its finisher will allocate
  and dispatch.
\<close>

record SyncPoint =
  sp_log_entry :: nat
  earlier_sync_point :: "nat option"
  later_sync_point :: "nat option"
  m_final_op_sequence_num :: u64
  m_append_scheduled :: bool
  m_appending :: bool
  m_on_sync_point_appending :: "ctx list"
  m_on_sync_point_persisted :: "ctx list"
  m_prior_log_entries_persisted_subs :: nat
  m_sync_point_persist_subs :: nat
  m_sync_point_persist_finisher :: "nat option"

definition new_SyncPoint :: "nat \<Rightarrow> SyncPoint" where
  "new_SyncPoint le =
     \<lparr>sp_log_entry = le, earlier_sync_point = None, later_sync_point = None,
      m_final_op_sequence_num = 0, m_append_scheduled = False, m_appending = False,
      m_on_sync_point_appending = [], m_on_sync_point_persisted = [],
      m_prior_log_entries_persisted_subs = 0, m_sync_point_persist_subs = 0,
      m_sync_point_persist_finisher = None\<rparr>"

text \<open>
  A block IO request. \<open>user_req_calls\<close> records the results \<^verbatim>\<open>user_req->complete(r)\<close>
  was called with, in order: the calls the user sees.
\<close>

record C_BlockIORequest =
  user_req :: ctx
  m_user_req_completed :: bool
  m_on_finish_completed :: bool
  m_detained :: bool
  m_deferred :: bool
  user_req_calls :: "int list"

record C_FlushRequest = C_BlockIORequest +
  m_log_entry_allocated :: bool
  m_internal :: bool
  to_append :: "nat option"

record C_WriteRequest = C_BlockIORequest +
  m_image_extents :: "(u64 \<times> u64) list"
  bl :: "8 word list"
  fadvise_flags :: int

definition new_C_FlushRequest :: "ctx \<Rightarrow> C_FlushRequest" where
  "new_C_FlushRequest on_finish =
     \<lparr>user_req = on_finish, m_user_req_completed = False, m_on_finish_completed = False,
      m_detained = False, m_deferred = False, user_req_calls = [],
      m_log_entry_allocated = False, m_internal = False, to_append = None\<rparr>"

definition new_C_WriteRequest ::
  "(u64 \<times> u64) list \<Rightarrow> 8 word list \<Rightarrow> int \<Rightarrow> ctx \<Rightarrow> C_WriteRequest" where
  "new_C_WriteRequest image_extents b flags on_finish =
     \<lparr>user_req = on_finish, m_user_req_completed = False, m_on_finish_completed = False,
      m_detained = False, m_deferred = False, user_req_calls = [],
      m_image_extents = image_extents, bl = b, fadvise_flags = flags\<rparr>"

record ImageCtx =
  snap_id :: u64
  read_only :: bool

record WriteLogPoolRoot =
  layout_version :: u32
  block_size :: u32
  num_log_entries :: u32
  first_free_entry :: u32
  first_valid_entry :: u32

text \<open>
  The constants of the absent header, taken as parameters.
\<close>

record rwl_constants =
  IN_FLIGHT_FLUSH_WRITE_LIMIT :: int
  IN_FLIGHT_FLUSH_BYTES_LIMIT :: int
  MIN_WRITE_ALLOC_SIZE :: u64
  MAX_WRITES_PER_SYNC_POINT :: nat
  MAX_BYTES_PER_SYNC_POINT :: nat
  MAX_LOG_ENTRIES :: u64
  RWL_POOL_VERSION :: u32
  CEPH_NOSNAP :: u64

text \<open>The members of \<^verbatim>\<open>ReplicatedWriteLog\<close> the modelled functions use, and the stores.\<close>

record rwl =
  log_entries :: "nat \<Rightarrow> GenericLogEntry"
  next_log_entry :: nat
  sync_points :: "nat \<Rightarrow> SyncPoint"
  next_sync_point :: nat
  flush_reqs :: "nat \<Rightarrow> C_FlushRequest"
  next_flush_req :: nat
  write_reqs :: "nat \<Rightarrow> C_WriteRequest"
  next_write_req :: nat
  m_image_ctx :: ImageCtx
  m_block_to_log_entry_map :: "WriteLogMapEntry list"
  m_log_entries :: "nat list"
  m_dirty_log_entries :: "nat list"
  m_current_sync_point :: "nat option"
  m_current_sync_gen :: u64
  m_last_op_sequence_num :: u64
  m_flush_seen :: bool
  m_persist_on_flush :: bool
  m_persist_on_write_until_flush :: bool
  m_invalidating :: bool
  m_initialized :: bool
  m_flush_ops_in_flight :: int
  m_flush_bytes_in_flight :: int
  m_lowest_flushing_sync_gen :: u64
  m_bytes_dirty :: u64
  m_bytes_cached :: u64
  m_bytes_allocated :: u64
  m_first_valid_entry :: u32
  m_first_free_entry :: u32
  m_total_log_entries :: u32
  m_free_log_entries :: u32
  m_alloc_failed_since_retire :: bool
  m_wake_up_enabled :: bool
  m_wake_up_requested :: bool
  m_wake_up_scheduled :: bool
  m_work_queue :: "ctx list"
  pool_root :: WriteLogPoolRoot
  pmem_freed :: "nat list"

section \<open>The flusher\<close>

text \<open>
  \<^verbatim>\<open>wake_up\<close>: schedules \<^verbatim>\<open>process_work\<close> on the work queue unless it is disabled
  or already scheduled.
\<close>

definition wake_up :: "rwl \<Rightarrow> rwl" where
  "wake_up s =
     (if \<not> m_wake_up_enabled s then s
      else if m_wake_up_requested s \<and> m_wake_up_scheduled s then s
      else
        let s1 = s\<lparr>m_wake_up_requested := True\<rparr> in
        if m_wake_up_scheduled s1 then s1
        else s1\<lparr>m_wake_up_scheduled := True, m_work_queue := m_work_queue s1 @ [ProcessWork]\<rparr>)"

text \<open>
  \<^verbatim>\<open>can_flush_entry\<close>. The counters \<open>m_flush_ops_in_flight\<close> and
  \<open>m_flush_bytes_in_flight\<close> are declared in the absent header; they are only counted up
  and down and compared, and are integers here.
\<close>

definition can_flush_entry :: "rwl_constants \<Rightarrow> rwl \<Rightarrow> nat \<Rightarrow> rwl_error + bool" where
  "can_flush_entry K s p =
     (let e = log_entries s p in
      if \<not> is_write (ram_entry e) then Inl AssertionFailed
      else if m_invalidating s then Inr True
      else if m_flush_ops_in_flight s \<noteq> 0 \<and>
              sync_gen_number (ram_entry e) > m_lowest_flushing_sync_gen s then Inr False
      else Inr (completed e \<and>
                m_flush_ops_in_flight s \<le> IN_FLIGHT_FLUSH_WRITE_LIMIT K \<and>
                m_flush_bytes_in_flight s \<le> IN_FLIGHT_FLUSH_BYTES_LIMIT K))"

text \<open>
  The eligibility rule in the words of the specification: a completed write, no flush in
  flight or a sync-gen number at most the lowest one flushing, and both in-flight counts
  below their limits.
\<close>

definition spec_can_flush_entry :: "rwl_constants \<Rightarrow> rwl \<Rightarrow> nat \<Rightarrow> bool" where
  "spec_can_flush_entry K s p =
     (let e = log_entries s p in
      is_write (ram_entry e) \<and> completed e \<and>
      (m_flush_ops_in_flight s = 0 \<or>
       sync_gen_number (ram_entry e) \<le> m_lowest_flushing_sync_gen s) \<and>
      m_flush_ops_in_flight s < IN_FLIGHT_FLUSH_WRITE_LIMIT K \<and>
      m_flush_bytes_in_flight s < IN_FLIGHT_FLUSH_BYTES_LIMIT K)"

text \<open>
  \<^verbatim>\<open>construct_flush_entry_ctx\<close>, the part that runs under the lock when the flush of an
  entry is set up: the bookkeeping of the flushes in flight, and the reader taken on the
  entry unless the log is invalidating.
\<close>

definition construct_flush_entry_ctx :: "rwl \<Rightarrow> nat \<Rightarrow> rwl_error + rwl" where
  "construct_flush_entry_ctx s p =
     (let e = log_entries s p;
          invalidating = m_invalidating s in
      if \<not> is_write (ram_entry e) then Inl AssertionFailed
      else
        let s1 = (if m_flush_ops_in_flight s = 0 \<or>
                     sync_gen_number (ram_entry e) < m_lowest_flushing_sync_gen s
                  then s\<lparr>m_lowest_flushing_sync_gen := sync_gen_number (ram_entry e)\<rparr>
                  else s);
            s2 = s1\<lparr>m_flush_ops_in_flight := m_flush_ops_in_flight s1 + 1,
                    m_flush_bytes_in_flight :=
                      m_flush_bytes_in_flight s1 + uint (write_bytes (ram_entry e))\<rparr>;
            e1 = e\<lparr>flushing := True\<rparr>;
            e2 = (if invalidating then e1 else e1\<lparr>reader_count := reader_count e1 + 1\<rparr>)
        in Inr (s2\<lparr>log_entries := (log_entries s2)(p := e2)\<rparr>))"

text \<open>
  The completion of the downstream write of entry \<open>p\<close> with result \<open>r\<close>: the context
  \<^verbatim>\<open>construct_flush_entry_ctx\<close> builds and hands to the downstream \<^verbatim>\<open>aio_write\<close>.
\<close>

definition flush_entry_complete :: "rwl \<Rightarrow> nat \<Rightarrow> int \<Rightarrow> rwl_error + rwl" where
  "flush_entry_complete s p r =
     (let e = log_entries s p;
          s1 = s\<lparr>m_flush_ops_in_flight := m_flush_ops_in_flight s - 1,
                 m_flush_bytes_in_flight :=
                   m_flush_bytes_in_flight s - uint (write_bytes (ram_entry e)),
                 log_entries := (log_entries s)(p := e\<lparr>flushing := False\<rparr>)\<rparr>
      in if r < 0
         then Inr (wake_up (s1\<lparr>m_dirty_log_entries := p # m_dirty_log_entries s1\<rparr>))
         else if \<not> (m_bytes_dirty s1 \<ge> write_bytes (ram_entry e)) then Inl AssertionFailed
         else Inr (wake_up
                (s1\<lparr>log_entries := (log_entries s1)(p := (log_entries s1 p)\<lparr>flushed := True\<rparr>),
                    m_bytes_dirty := m_bytes_dirty s1 - write_bytes (ram_entry e)\<rparr>)))"

section \<open>Completion of the user's request\<close>

text \<open>
  \<^verbatim>\<open>C_BlockIORequest::complete_user_request\<close>: the compare-and-exchange on
  \<open>m_user_req_completed\<close> is one atomic step; only the call that finds the flag unset
  completes the user's context.
\<close>

definition complete_user_request ::
  "int \<Rightarrow> 'a C_BlockIORequest_scheme \<Rightarrow> 'a C_BlockIORequest_scheme" where
  "complete_user_request r req =
     (if \<not> m_user_req_completed req
      then req\<lparr>m_user_req_completed := True, user_req_calls := user_req_calls req @ [r]\<rparr>
      else req)"

text \<open>
  \<^verbatim>\<open>C_BlockIORequest::finish\<close>: completes the user's request, then \<open>_on_finish\<close> once;
  a second completion of \<open>_on_finish\<close> is an assertion failure. The argument
  \<open>on_finish\<close> is what the request's \<open>_on_finish\<close> context does to the request.
\<close>

definition C_BlockIORequest_finish ::
  "(int \<Rightarrow> 'a C_BlockIORequest_scheme \<Rightarrow> 'a C_BlockIORequest_scheme) \<Rightarrow> int \<Rightarrow>
   'a C_BlockIORequest_scheme \<Rightarrow> rwl_error + 'a C_BlockIORequest_scheme" where
  "C_BlockIORequest_finish on_finish r req =
     (let q = complete_user_request r req in
      if \<not> m_on_finish_completed q
      then Inr (on_finish 0 (q\<lparr>m_on_finish_completed := True\<rparr>))
      else Inl AssertionFailed)"

text \<open>
  The user completion in \<^verbatim>\<open>dispatch_aio_write\<close> (a write in persist-on-flush mode is
  acknowledged at dispatch) and in \<^verbatim>\<open>complete_write_req\<close> (the \<open>_on_finish\<close> of a write
  request; the release of the lanes and of the guard cell that follows it does not touch
  the request's completion state).
\<close>

definition dispatch_aio_write_user_completion ::
  "bool \<Rightarrow> 'a C_BlockIORequest_scheme \<Rightarrow> 'a C_BlockIORequest_scheme" where
  "dispatch_aio_write_user_completion persist_on_flush req =
     (if persist_on_flush then complete_user_request 0 req else req)"

definition complete_write_req ::
  "bool \<Rightarrow> int \<Rightarrow> 'a C_BlockIORequest_scheme \<Rightarrow> 'a C_BlockIORequest_scheme" where
  "complete_write_req persist_on_flush result req =
     (if \<not> persist_on_flush then complete_user_request result req else req)"

text \<open>The \<open>_on_finish\<close> context \<^verbatim>\<open>make_flush_req\<close> gives a flush request.\<close>

definition flush_req_on_finish ::
  "int \<Rightarrow> 'a C_BlockIORequest_scheme \<Rightarrow> 'a C_BlockIORequest_scheme" where
  "flush_req_on_finish r req = complete_user_request r req"

text \<open>
  The calls that may complete the user's request of a write, in any number and order:
  the acknowledgement at dispatch, \<^verbatim>\<open>finish\<close> (with its \<open>_on_finish\<close>) and a bare
  \<^verbatim>\<open>complete_user_request\<close>. \<open>run_completions\<close> applies a sequence of them and stops
  at a failed assertion, keeping the request as it then is.
\<close>

datatype completion_call = DispatchAck | Finish int | CompleteUserRequest int

fun run_completions ::
  "bool \<Rightarrow> completion_call list \<Rightarrow> 'a C_BlockIORequest_scheme \<Rightarrow> 'a C_BlockIORequest_scheme" where
  "run_completions pof [] req = req"
| "run_completions pof (DispatchAck # cs) req =
     run_completions pof cs (dispatch_aio_write_user_completion pof req)"
| "run_completions pof (Finish r # cs) req =
     (case C_BlockIORequest_finish (complete_write_req pof) r req of
        Inl e \<Rightarrow> complete_user_request r req
      | Inr q \<Rightarrow> run_completions pof cs q)"
| "run_completions pof (CompleteUserRequest r # cs) req =
     run_completions pof cs (complete_user_request r req)"

text \<open>
  The completion state of a request is consistent when the user's context has been
  called at most once, and not at all while \<open>m_user_req_completed\<close> is unset.
\<close>

definition user_req_inv :: "'a C_BlockIORequest_scheme \<Rightarrow> bool" where
  "user_req_inv q =
     (if m_user_req_completed q then length (user_req_calls q) \<le> 1 else user_req_calls q = [])"

section \<open>Sync points\<close>

text \<open>
  \<^verbatim>\<open>new_sync_point\<close>. The new sync point and its log entry are allocated at the next
  free addresses of their stores. \<open>later\<close> is the \<^verbatim>\<open>DeferredContexts\<close> object: the
  contexts to complete once the caller has released the lock.
\<close>

definition new_sync_point :: "rwl \<Rightarrow> ctx list \<Rightarrow> rwl \<times> ctx list" where
  "new_sync_point s later =
     (let old_sync_point = m_current_sync_point s;
          gen = m_current_sync_gen s + 1;
          n = next_sync_point s;
          le = next_log_entry s;
          s1 = s\<lparr>m_current_sync_gen := gen,
                 next_sync_point := n + 1,
                 next_log_entry := le + 1,
                 log_entries := (log_entries s)(le := new_SyncPointLogEntry gen),
                 sync_points := (sync_points s)(n := new_SyncPoint le),
                 m_current_sync_point := Some n\<rparr>;
          (s2, later2) =
            (case old_sync_point of
               None \<Rightarrow> (s1, later)
             | Some old \<Rightarrow>
                 let nsp = (sync_points s1 n)\<lparr>earlier_sync_point := Some old\<rparr>;
                     osp = (sync_points s1 old)
                             \<lparr>later_sync_point := Some n,
                              m_final_op_sequence_num := m_last_op_sequence_num s1\<rparr>;
                     nsp' = (if \<not> m_appending osp
                             then nsp\<lparr>m_prior_log_entries_persisted_subs :=
                                        m_prior_log_entries_persisted_subs nsp + 1\<rparr>
                             else nsp);
                     osp' = (if \<not> m_appending osp
                             then osp\<lparr>m_on_sync_point_appending :=
                                        m_on_sync_point_appending osp @ [PriorPersistedSub n]\<rparr>
                             else osp)
                 in (s1\<lparr>sync_points := (sync_points s1)(n := nsp', old := osp')\<rparr>,
                     later @ [ActivatePriorPersisted old]));
          nsp2 = sync_points s2 n
      in (s2\<lparr>sync_points := (sync_points s2)
                (n := nsp2\<lparr>m_sync_point_persist_subs := m_sync_point_persist_subs nsp2 + 1\<rparr>)\<rparr>,
          later2))"

text \<open>
  \<^verbatim>\<open>make_flush_req\<close>: a flush request over the whole volume, at the next free address.
\<close>

definition make_flush_req :: "rwl \<Rightarrow> ctx \<Rightarrow> rwl \<times> nat" where
  "make_flush_req s on_finish =
     (let f = next_flush_req s in
      (s\<lparr>flush_reqs := (flush_reqs s)(f := new_C_FlushRequest on_finish),
         next_flush_req := f + 1\<rparr>, f))"

text \<open>
  The loop of \<^verbatim>\<open>flush_new_sync_point\<close> that walks the earlier sync points and asserts
  that each is scheduled for append. It follows \<open>earlier_sync_point\<close> until a null link;
  on a cyclic chain it does not return.
\<close>

partial_function (option) earlier_all_scheduled ::
  "(nat \<Rightarrow> SyncPoint) \<Rightarrow> nat option \<Rightarrow> bool option" where
  "earlier_all_scheduled sps previous =
     (case previous of
        None \<Rightarrow> Some True
      | Some p \<Rightarrow>
          if m_append_scheduled (sps p)
          then earlier_all_scheduled sps (earlier_sync_point (sps p))
          else Some False)"

definition flush_new_sync_point ::
  "rwl \<Rightarrow> nat option \<Rightarrow> ctx list \<Rightarrow> rwl_error + rwl \<times> ctx list" where
  "flush_new_sync_point s flush_req later =
     (let (s1, f) =
            (case flush_req of
               Some f \<Rightarrow> (s, f)
             | None \<Rightarrow>
                 let (sa, f) = make_flush_req s NullFlushFinish in
                 (sa\<lparr>flush_reqs := (flush_reqs sa)(f := (flush_reqs sa f)\<lparr>m_internal := True\<rparr>)\<rparr>, f));
          (s2, later2) = new_sync_point s1 later
      in case m_current_sync_point s2 of
           None \<Rightarrow> Inl NullDereference
         | Some cur \<Rightarrow>
             (case earlier_sync_point (sync_points s2 cur) of
                None \<Rightarrow> Inl AssertionFailed
              | Some ta \<Rightarrow>
                  let s3 = s2\<lparr>flush_reqs := (flush_reqs s2)
                                (f := (flush_reqs s2 f)\<lparr>to_append := Some ta\<rparr>),
                              sync_points := (sync_points s2)
                                (ta := (sync_points s2 ta)\<lparr>m_append_scheduled := True\<rparr>)\<rparr>
                  in case earlier_all_scheduled (sync_points s3)
                            (earlier_sync_point (sync_points s3 ta)) of
                       None \<Rightarrow> Inl Diverged
                     | Some False \<Rightarrow> Inl AssertionFailed
                     | Some True \<Rightarrow>
                         let tsp = sync_points s3 ta in
                         Inr (s3\<lparr>sync_points := (sync_points s3)
                                   (ta := tsp\<lparr>m_sync_point_persist_finisher := Some f,
                                              m_on_sync_point_persisted :=
                                                m_on_sync_point_persisted tsp @ [FlushRequest f]\<rparr>)\<rparr>,
                              later2 @ [ActivateSyncPointPersist ta])))"

definition init_flush_new_sync_point :: "rwl \<Rightarrow> ctx list \<Rightarrow> rwl_error + rwl \<times> ctx list" where
  "init_flush_new_sync_point s later =
     (if m_initialized s then Inl AssertionFailed
      else case m_current_sync_point s of
             None \<Rightarrow> Inr (new_sync_point s later)
           | Some _ \<Rightarrow> flush_new_sync_point s None later)"

section \<open>The flush operation\<close>

definition EROFS :: int where
  "EROFS = 30"

text \<open>\<^verbatim>\<open>whole_volume_extent\<close>: offset 0, length \<^verbatim>\<open>~0\<close>.\<close>

definition whole_volume_extent :: "u64 \<times> u64" where
  "whole_volume_extent = (0, - 1)"

text \<open>
  \<^verbatim>\<open>ExtentsSummary\<close>: the first byte of the extents and the byte after their last one.
  Its \<^verbatim>\<open>block_extent()\<close> is made of these two as they are.
\<close>

fun ExtentsSummary_loop :: "(u64 \<times> u64) list \<Rightarrow> u64 \<times> u64 \<Rightarrow> u64 \<times> u64" where
  "ExtentsSummary_loop [] acc = acc"
| "ExtentsSummary_loop ((off, len) # es) (first_image_byte, last_image_byte) =
     ExtentsSummary_loop es
       (if off < first_image_byte then off else first_image_byte,
        if off + len > last_image_byte then off + len else last_image_byte)"

definition ExtentsSummary_block_extent :: "(u64 \<times> u64) list \<Rightarrow> BlockExtent" where
  "ExtentsSummary_block_extent extents =
     (case extents of
        [] \<Rightarrow> \<lparr>block_start = 0, block_end = 0\<rparr>
      | (off, len) # _ \<Rightarrow>
          (let (f, l) = ExtentsSummary_loop extents (off, off + len)
           in \<lparr>block_start = f, block_end = l\<rparr>))"

text \<open>
  \<^verbatim>\<open>aio_flush\<close> up to the block guard: the flush request is detained as a barrier.
\<close>

definition aio_flush :: "rwl_constants \<Rightarrow> rwl \<Rightarrow> ctx \<Rightarrow> rwl \<times> effect list" where
  "aio_flush K s on_finish =
     (if \<not> m_initialized s then (s, [QueueWork on_finish])
      else if snap_id (m_image_ctx s) \<noteq> CEPH_NOSNAP K \<or> read_only (m_image_ctx s)
      then (s, [Complete on_finish (- EROFS)])
      else
        let (s1, f) = make_flush_req s on_finish in
        (s1, [DetainGuardedRequest (ExtentsSummary_block_extent [whole_volume_extent])
                (GuardedFlush f) True]))"

text \<open>
  \<^verbatim>\<open>aio_flush\<close> once the guard grants the barrier: the guarded context of flush request
  \<open>f\<close>, called with the cell and the detained flag. The contexts of \<open>post_unlock\<close> are
  completed with 0 when the lock is released, before the cell is released.
\<close>

definition aio_flush_flush_seen :: "rwl \<Rightarrow> nat \<Rightarrow> bool \<Rightarrow> rwl" where
  "aio_flush_flush_seen s f detained =
     (let s0 = s\<lparr>flush_reqs := (flush_reqs s)(f := (flush_reqs s f)\<lparr>m_detained := detained\<rparr>)\<rparr>
      in if \<not> m_flush_seen s0
         then (let sa = s0\<lparr>m_flush_seen := True\<rparr> in
               if \<not> m_persist_on_flush sa \<and> m_persist_on_write_until_flush sa
               then sa\<lparr>m_persist_on_flush := True\<rparr> else sa)
         else s0)"

definition aio_flush_guarded ::
  "rwl \<Rightarrow> nat \<Rightarrow> nat \<Rightarrow> bool \<Rightarrow> rwl_error + rwl \<times> effect list" where
  "aio_flush_guarded s f cell detained =
     (let s1 = aio_flush_flush_seen s f detained
      in case m_current_sync_point s1 of
           None \<Rightarrow> Inl NullDereference
         | Some cur \<Rightarrow>
             if m_writes (log_entries s1 (sp_log_entry (sync_points s1 cur))) \<noteq> 0
             then (case flush_new_sync_point s1 (Some f) [] of
                     Inl e \<Rightarrow> Inl e
                   | Inr (s2, post_unlock) \<Rightarrow>
                       Inr (s2, map (\<lambda>c. Complete c 0) post_unlock @ [ReleaseGuardedRequest cell]))
             else (case earlier_sync_point (sync_points s1 cur) of
                     Some e \<Rightarrow>
                       let esp = sync_points s1 e;
                           s2 = s1\<lparr>sync_points := (sync_points s1)
                                  (e := esp\<lparr>m_on_sync_point_persisted :=
                                             m_on_sync_point_persisted esp @ [FlushRequest f]\<rparr>)\<rparr>
                       in if \<not> m_append_scheduled (sync_points s2 e) then Inl AssertionFailed
                          else Inr (s2, [ReleaseGuardedRequest cell])
                   | None \<Rightarrow>
                       Inr (s1, [Complete (FlushRequest f) 0, ReleaseGuardedRequest cell])))"

text \<open>
  The shape of the chain of sync points the code relies on (and asserts in
  \<^verbatim>\<open>flush_new_sync_point\<close> and \<^verbatim>\<open>aio_flush\<close>): every allocated sync point's earlier
  link leads to a sync point allocated before it that is scheduled for append, and the
  current sync point is allocated.
\<close>

definition sync_chain_ok :: "rwl \<Rightarrow> bool" where
  "sync_chain_ok s =
     ((\<forall>p e. p < next_sync_point s \<longrightarrow> earlier_sync_point (sync_points s p) = Some e \<longrightarrow>
             e < p \<and> m_append_scheduled (sync_points s e)) \<and>
      (\<forall>c. m_current_sync_point s = Some c \<longrightarrow> c < next_sync_point s))"

section \<open>Dispatch of a write\<close>

text \<open>
  The loop of \<^verbatim>\<open>dispatch_aio_write\<close> over the extents of the request, under the lock.
  For each extent a \<^verbatim>\<open>WriteLogOperation\<close> is made, whose constructor makes the log
  entry (at the next free address) and counts the write on the sync point's log entry
  \<open>spe\<close>; then the entry is filled in. \<open>pof\<close> is the \<open>m_persist_on_flush\<close> of the
  operation set; the second list holds the buffers allocated for the extents, a null
  buffer being 0. The result carries the addresses of the new log entries.
\<close>

fun dispatch_aio_write_ops ::
  "bool \<Rightarrow> nat \<Rightarrow> rwl \<Rightarrow> (u64 \<times> u64) list \<Rightarrow> nat list \<Rightarrow> rwl_error + rwl \<times> nat list" where
  "dispatch_aio_write_ops pof spe s [] bufs = Inr (s, [])"
| "dispatch_aio_write_ops pof spe s ((off, len) # es) [] = Inl NullDereference"
| "dispatch_aio_write_ops pof spe s ((off, len) # es) (buf # bufs) =
     (let le = next_log_entry s;
          s1 = s\<lparr>next_log_entry := le + 1,
                 log_entries := (log_entries s)(le := new_WriteLogEntry (Some spe) off len)\<rparr>;
          se = log_entries s1 spe;
          s2 = s1\<lparr>log_entries := (log_entries s1)
                 (spe := se\<lparr>m_writes := m_writes se + 1, m_bytes := m_bytes se + unat len\<rparr>)\<rparr>;
          we = log_entries s2 le;
          ram1 = (ram_entry we)\<lparr>has_data := True, write_data := buf\<rparr>
      in if buf = 0 then Inl AssertionFailed
         else
           let ram2 = ram1\<lparr>sync_gen_number := m_current_sync_gen s2\<rparr>;
               s3 = (if pof then s2
                     else s2\<lparr>m_last_op_sequence_num := m_last_op_sequence_num s2 + 1\<rparr>);
               ram3 = (if pof then ram2\<lparr>write_sequence_number := 0\<rparr>
                       else ram2\<lparr>write_sequence_number := m_last_op_sequence_num s3,
                                 sequenced := True\<rparr>);
               ram4 = ram3\<lparr>sync_point := False, unmap := False\<rparr>;
               s4 = s3\<lparr>log_entries := (log_entries s3)(le := we\<lparr>ram_entry := ram4\<rparr>)\<rparr>
           in case dispatch_aio_write_ops pof spe s4 es bufs of
                Inl e \<Rightarrow> Inl e
              | Inr (s5, les) \<Rightarrow> Inr (s5, le # les))"

text \<open>
  The block of \<^verbatim>\<open>dispatch_aio_write\<close> under the lock: a new sync point is begun first
  when the current one has completed writes (in persist-on-write mode) or is full; the
  operation set takes the current sync point and the current \<open>m_persist_on_flush\<close>; then
  the loop above runs. The result carries the new log entries, the mode of the operation
  set and the contexts deferred to the release of the lock.
\<close>

definition dispatch_aio_write_locked ::
  "rwl_constants \<Rightarrow> rwl \<Rightarrow> (u64 \<times> u64) list \<Rightarrow> nat list \<Rightarrow> bool \<Rightarrow>
   rwl_error + rwl \<times> nat list \<times> bool \<times> ctx list" where
  "dispatch_aio_write_locked K s extents bufs allocated =
     (case m_current_sync_point s of
        None \<Rightarrow> Inl NullDereference
      | Some cur \<Rightarrow>
          let cse = log_entries s (sp_log_entry (sync_points s cur)) in
          case (if (\<not> m_persist_on_flush s \<and> m_writes_completed cse \<noteq> 0) \<or>
                   m_writes cse > MAX_WRITES_PER_SYNC_POINT K \<or>
                   m_bytes cse > MAX_BYTES_PER_SYNC_POINT K
                then flush_new_sync_point s None []
                else Inr (s, [])) of
            Inl e \<Rightarrow> Inl e
          | Inr (s1, on_exit) \<Rightarrow>
              (case m_current_sync_point s1 of
                 None \<Rightarrow> Inl NullDereference
               | Some sp \<Rightarrow>
                   let pof = m_persist_on_flush s1;
                       ssp = sync_points s1 sp;
                       s2 = s1\<lparr>sync_points := (sync_points s1)
                              (sp := ssp\<lparr>m_prior_log_entries_persisted_subs :=
                                          m_prior_log_entries_persisted_subs ssp + 1\<rparr>)\<rparr>
                   in if \<not> allocated then Inl AssertionFailed
                      else case dispatch_aio_write_ops pof (sp_log_entry (sync_points s2 sp))
                                  s2 extents bufs of
                             Inl e \<Rightarrow> Inl e
                           | Inr (s3, les) \<Rightarrow> Inr (s3, les, pof, on_exit)))"

section \<open>The write and writesame entry points\<close>

text \<open>
  \<^verbatim>\<open>aio_write\<close> up to the block guard: on a snapshot or a read-only image the request
  is completed with \<open>-EROFS\<close>; otherwise a write request is made (at the next free
  address) and detained in the guard over the summary extent of the request.
\<close>

definition aio_write ::
  "rwl_constants \<Rightarrow> rwl \<Rightarrow> (u64 \<times> u64) list \<Rightarrow> 8 word list \<Rightarrow> int \<Rightarrow> ctx \<Rightarrow>
   rwl_error + rwl \<times> effect list" where
  "aio_write K s image_extents b flags on_finish =
     (if \<not> m_initialized s then Inl AssertionFailed
      else if snap_id (m_image_ctx s) \<noteq> CEPH_NOSNAP K \<or> read_only (m_image_ctx s)
      then Inr (s, [Complete on_finish (- EROFS)])
      else
        let w = next_write_req s;
            s1 = s\<lparr>write_reqs := (write_reqs s)
                     (w := new_C_WriteRequest image_extents b flags on_finish),
                   next_write_req := w + 1\<rparr>
        in Inr (s1, [DetainGuardedRequest (ExtentsSummary_block_extent image_extents)
                       (GuardedWrite w) False]))"

text \<open>
  The loop of \<^verbatim>\<open>aio_writesame\<close> that builds \<open>total_bl\<close>: while \<open>left\<close> is not zero
  the pattern is appended and its length subtracted from \<open>left\<close>, in 64-bit arithmetic.
  With a pattern whose length does not divide \<open>left\<close> the subtraction wraps around and
  the loop goes on.
\<close>

partial_function (option) writesame_fill ::
  "8 word list \<Rightarrow> u64 \<Rightarrow> 8 word list \<Rightarrow> 8 word list option" where
  "writesame_fill pat left total_bl =
     (if left \<noteq> 0
      then writesame_fill pat (left - of_nat (length pat)) (total_bl @ pat)
      else Some total_bl)"

text \<open>
  \<^verbatim>\<open>aio_writesame\<close>. The pattern \<open>b\<close> is handed to the downstream cache as an rvalue
  (\<^verbatim>\<open>std::move(bl)\<close>) and read again afterwards; \<open>b_after\<close> is what the downstream call
  has left in it (\<open>b\<close> itself when the callee copies).
\<close>

definition aio_writesame ::
  "rwl_constants \<Rightarrow> rwl \<Rightarrow> u64 \<Rightarrow> u64 \<Rightarrow> 8 word list \<Rightarrow> 8 word list \<Rightarrow> int \<Rightarrow> ctx \<Rightarrow>
   rwl_error + rwl \<times> effect list" where
  "aio_writesame K s off len b b_after flags on_finish =
     (if \<not> m_initialized s then Inl AssertionFailed
      else if snap_id (m_image_ctx s) \<noteq> CEPH_NOSNAP K \<or> read_only (m_image_ctx s)
      then Inr (s, [Complete on_finish (- EROFS)])
      else
        case writesame_fill b_after len [] of
          None \<Rightarrow> Inl Diverged
        | Some total_bl \<Rightarrow>
            if len \<noteq> of_nat (length total_bl) then Inl AssertionFailed
            else
              (case aio_write K s [(off, len)] total_bl flags on_finish of
                 Inl e \<Rightarrow> Inl e
               | Inr (s', effs) \<Rightarrow>
                   Inr (s', LowerAioWritesame off len b flags on_finish # effs)))"

section \<open>The write-log map\<close>

text \<open>
  \<^verbatim>\<open>WriteLogMapEntryCompare\<close>: an entry is less than another when it ends before the
  other starts, so two entries are equivalent exactly when their extents overlap.
\<close>

definition WriteLogMapEntryCompare :: "WriteLogMapEntry \<Rightarrow> WriteLogMapEntry \<Rightarrow> bool" where
  "WriteLogMapEntryCompare lhs rhs =
     (block_end (block_extent lhs) < block_start (block_extent rhs))"

text \<open>
  The map is a \<^verbatim>\<open>std::set\<close> under that comparison, modelled by the list of its elements
  in iteration order. The operations of the set the code uses are written on that list:
  \<open>set_lower_bound\<close> is the position of the first element not less than the key,
  \<open>set_equal_range\<close> the run of elements equivalent to the key, \<open>set_find\<close> the position
  of an element equivalent to the key, \<open>set_erase\<close> the removal at a position and
  \<open>set_insert\<close> the insertion of an element unless an equivalent one is present. They
  agree with the search tree wherever the list is partitioned by the key, which the order
  of non-overlapping extents gives.
\<close>

definition set_lower_bound :: "('a \<Rightarrow> 'a \<Rightarrow> bool) \<Rightarrow> 'a list \<Rightarrow> 'a \<Rightarrow> nat" where
  "set_lower_bound cmp xs k = length (takeWhile (\<lambda>e. cmp e k) xs)"

definition set_equal_range :: "('a \<Rightarrow> 'a \<Rightarrow> bool) \<Rightarrow> 'a list \<Rightarrow> 'a \<Rightarrow> 'a list" where
  "set_equal_range cmp xs k = takeWhile (\<lambda>e. \<not> cmp k e) (dropWhile (\<lambda>e. cmp e k) xs)"

definition set_find :: "('a \<Rightarrow> 'a \<Rightarrow> bool) \<Rightarrow> 'a list \<Rightarrow> 'a \<Rightarrow> nat option" where
  "set_find cmp xs k =
     (let i = set_lower_bound cmp xs k in
      if i < length xs \<and> \<not> cmp k (xs ! i) then Some i else None)"

definition set_erase :: "'a list \<Rightarrow> nat \<Rightarrow> 'a list" where
  "set_erase xs i = take i xs @ drop (Suc i) xs"

definition set_insert :: "('a \<Rightarrow> 'a \<Rightarrow> bool) \<Rightarrow> 'a list \<Rightarrow> 'a \<Rightarrow> 'a list" where
  "set_insert cmp xs x =
     (let i = set_lower_bound cmp xs x in
      if i < length xs \<and> \<not> cmp x (xs ! i) then xs else take i xs @ x # drop i xs)"

definition find_map_entries_locked :: "rwl \<Rightarrow> BlockExtent \<Rightarrow> WriteLogMapEntry list" where
  "find_map_entries_locked s ext =
     set_equal_range WriteLogMapEntryCompare (m_block_to_log_entry_map s)
       \<lparr>block_extent = ext, log_entry = None\<rparr>"

definition add_map_entry_locked :: "rwl \<Rightarrow> WriteLogMapEntry \<Rightarrow> rwl_error + rwl" where
  "add_map_entry_locked s map_entry =
     (case log_entry map_entry of
        None \<Rightarrow> Inl AssertionFailed
      | Some p \<Rightarrow>
          let e = log_entries s p in
          Inr (s\<lparr>m_block_to_log_entry_map :=
                   set_insert WriteLogMapEntryCompare (m_block_to_log_entry_map s) map_entry,
                 log_entries := (log_entries s)
                   (p := e\<lparr>referring_map_entries := referring_map_entries e + 1\<rparr>)\<rparr>))"

definition remove_map_entry_locked :: "rwl \<Rightarrow> WriteLogMapEntry \<Rightarrow> rwl_error + rwl" where
  "remove_map_entry_locked s map_entry =
     (case set_find WriteLogMapEntryCompare (m_block_to_log_entry_map s) map_entry of
        None \<Rightarrow> Inl AssertionFailed
      | Some i \<Rightarrow>
          let erased = m_block_to_log_entry_map s ! i in
          case log_entry erased of
            None \<Rightarrow> Inl NullDereference
          | Some p \<Rightarrow>
              let e = log_entries s p in
              Inr (s\<lparr>m_block_to_log_entry_map := set_erase (m_block_to_log_entry_map s) i,
                     log_entries := (log_entries s)
                       (p := e\<lparr>referring_map_entries := referring_map_entries e - 1\<rparr>)\<rparr>))"

definition adjust_map_entry_locked ::
  "rwl \<Rightarrow> WriteLogMapEntry \<Rightarrow> BlockExtent \<Rightarrow> rwl_error + rwl" where
  "adjust_map_entry_locked s map_entry new_extent =
     (case set_find WriteLogMapEntryCompare (m_block_to_log_entry_map s) map_entry of
        None \<Rightarrow> Inl AssertionFailed
      | Some i \<Rightarrow>
          let adjusted = m_block_to_log_entry_map s ! i in
          Inr (s\<lparr>m_block_to_log_entry_map :=
                   set_insert WriteLogMapEntryCompare
                     (set_erase (m_block_to_log_entry_map s) i)
                     \<lparr>block_extent = new_extent, log_entry = log_entry adjusted\<rparr>\<rparr>))"

definition split_map_entry_locked ::
  "rwl \<Rightarrow> WriteLogMapEntry \<Rightarrow> BlockExtent \<Rightarrow> rwl_error + rwl" where
  "split_map_entry_locked s map_entry removed_extent =
     (case set_find WriteLogMapEntryCompare (m_block_to_log_entry_map s) map_entry of
        None \<Rightarrow> Inl AssertionFailed
      | Some i \<Rightarrow>
          let split = m_block_to_log_entry_map s ! i;
              m1 = set_erase (m_block_to_log_entry_map s) i;
              left_extent = \<lparr>block_start = block_start (block_extent split),
                             block_end = block_start removed_extent - 1\<rparr>;
              m2 = set_insert WriteLogMapEntryCompare m1
                     \<lparr>block_extent = left_extent, log_entry = log_entry split\<rparr>;
              right_extent = \<lparr>block_start = block_end removed_extent + 1,
                              block_end = block_end (block_extent split)\<rparr>;
              m3 = set_insert WriteLogMapEntryCompare m2
                     \<lparr>block_extent = right_extent, log_entry = log_entry split\<rparr>
          in case log_entry split of
               None \<Rightarrow> Inl NullDereference
             | Some p \<Rightarrow>
                 let e = log_entries s p in
                 Inr (s\<lparr>m_block_to_log_entry_map := m3,
                        log_entries := (log_entries s)
                          (p := e\<lparr>referring_map_entries := referring_map_entries e + 1\<rparr>)\<rparr>))"

text \<open>
  What \<^verbatim>\<open>add_log_entry_locked\<close> does with one overlapping entry, and its loop over the
  entries \<^verbatim>\<open>find_map_entries_locked\<close> returned (a copy: the set changes under the loop).
\<close>

definition add_log_entry_overlap ::
  "rwl \<Rightarrow> WriteLogMapEntry \<Rightarrow> WriteLogMapEntry \<Rightarrow> rwl_error + rwl" where
  "add_log_entry_overlap s map_entry entry =
     (let nb = block_extent map_entry; ob = block_extent entry in
      if block_start nb \<le> block_start ob
      then (if block_end nb \<ge> block_end ob
            then remove_map_entry_locked s entry
            else if \<not> block_end nb < block_end ob then Inl AssertionFailed
            else adjust_map_entry_locked s entry
                   \<lparr>block_start = block_end nb + 1, block_end = block_end ob\<rparr>)
      else if \<not> block_start nb > block_start ob then Inl AssertionFailed
      else (if block_end nb \<ge> block_end ob
            then adjust_map_entry_locked s entry
                   \<lparr>block_start = block_start ob, block_end = block_start nb - 1\<rparr>
            else split_map_entry_locked s entry nb))"

fun add_log_entry_overlaps ::
  "rwl \<Rightarrow> WriteLogMapEntry \<Rightarrow> WriteLogMapEntry list \<Rightarrow> rwl_error + rwl" where
  "add_log_entry_overlaps s map_entry [] = Inr s"
| "add_log_entry_overlaps s map_entry (entry # overlap_entries) =
     (case add_log_entry_overlap s map_entry entry of
        Inl e \<Rightarrow> Inl e
      | Inr s' \<Rightarrow> add_log_entry_overlaps s' map_entry overlap_entries)"

definition add_log_entry_locked :: "rwl \<Rightarrow> nat \<Rightarrow> rwl_error + rwl" where
  "add_log_entry_locked s p =
     (let map_entry = \<lparr>block_extent = WriteLogEntry_block_extent (log_entries s p),
                       log_entry = Some p\<rparr>
      in if \<not> is_write (ram_entry (log_entries s p)) then Inl AssertionFailed
         else
           case add_log_entry_overlaps s map_entry
                  (find_map_entries_locked s (block_extent map_entry)) of
             Inl e \<Rightarrow> Inl e
           | Inr s1 \<Rightarrow> add_map_entry_locked s1 map_entry)"

fun add_log_entries :: "rwl \<Rightarrow> nat list \<Rightarrow> rwl_error + rwl" where
  "add_log_entries s [] = Inr s"
| "add_log_entries s (p # ps) =
     (case add_log_entry_locked s p of
        Inl e \<Rightarrow> Inl e
      | Inr s' \<Rightarrow> add_log_entries s' ps)"

text \<open>\<^verbatim>\<open>remove_log_entry_locked\<close>: removes the map entries that point at log entry \<open>p\<close>.\<close>

fun remove_log_entry_hits :: "rwl \<Rightarrow> nat \<Rightarrow> WriteLogMapEntry list \<Rightarrow> rwl_error + rwl" where
  "remove_log_entry_hits s p [] = Inr s"
| "remove_log_entry_hits s p (possible_hit # possible_hits) =
     (if log_entry possible_hit = Some p
      then (case remove_map_entry_locked s possible_hit of
              Inl e \<Rightarrow> Inl e
            | Inr s' \<Rightarrow> remove_log_entry_hits s' p possible_hits)
      else remove_log_entry_hits s p possible_hits)"

definition remove_log_entry_locked :: "rwl \<Rightarrow> nat \<Rightarrow> rwl_error + rwl" where
  "remove_log_entry_locked s p =
     (if \<not> is_write (ram_entry (log_entries s p)) then Inr s
      else remove_log_entry_hits s p
             (find_map_entries_locked s (WriteLogEntry_block_extent (log_entries s p))))"








text \<open>
  \<open>bump_refs d h\<close> is the store \<open>h\<close> with the back-reference count of every log entry
  \<open>q\<close> changed by \<open>d q\<close> and nothing else touched.
\<close>

definition bump_refs ::
  "(nat \<Rightarrow> int) \<Rightarrow> (nat \<Rightarrow> GenericLogEntry) \<Rightarrow> nat \<Rightarrow> GenericLogEntry" where
  "bump_refs d h = (\<lambda>q. (h q)\<lparr>referring_map_entries := referring_map_entries (h q) + d q\<rparr>)"

section \<open>The ring of log slots\<close>

text \<open>
  The branch of \<^verbatim>\<open>rwl_init\<close> that lays out a new pool, after \<^verbatim>\<open>pmemobj_create\<close> has
  succeeded. The usable size of the pool (computed in floating point from the configured
  size) and the size of a small write (a sum of constants of the absent header) are
  parameters, and so is whether the transaction commits. The result says whether
  initialization goes on (\<open>True\<close>) or has completed the caller with an error.
\<close>

definition rwl_init_new_pool ::
  "rwl_constants \<Rightarrow> rwl \<Rightarrow> u64 \<Rightarrow> u64 \<Rightarrow> bool \<Rightarrow> rwl_error + rwl \<times> bool" where
  "rwl_init_new_pool K s effective_pool_size small_write_size tx_commits =
     (if small_write_size = 0 then Inl DivideByZero
      else
        let n0 = effective_pool_size div small_write_size;
            num_small_writes = (if n0 > MAX_LOG_ENTRIES K then MAX_LOG_ENTRIES K else n0)
        in if \<not> num_small_writes > 2 then Inl AssertionFailed
           else
             let s1 = s\<lparr>m_first_free_entry := 0, m_first_valid_entry := 0\<rparr> in
             if tx_commits
             then
               let s2 = s1\<lparr>pool_root :=
                            \<lparr>layout_version = RWL_POOL_VERSION K,
                             block_size = ucast (MIN_WRITE_ALLOC_SIZE K),
                             num_log_entries = ucast num_small_writes,
                             first_free_entry = m_first_free_entry s1,
                             first_valid_entry = m_first_valid_entry s1\<rparr>\<rparr>
               in Inr (s2\<lparr>m_total_log_entries := num_log_entries (pool_root s2),
                          m_free_log_entries := num_log_entries (pool_root s2) - 1\<rparr>, True)
             else Inr (s1\<lparr>m_total_log_entries := 0, m_free_log_entries := 0\<rparr>, False))"

text \<open>
  The branch of \<^verbatim>\<open>rwl_init\<close> that opens an existing pool, after \<^verbatim>\<open>pmemobj_open\<close> has
  succeeded and up to the call of \<^verbatim>\<open>load_existing_entries\<close>: \<open>root\<close> is the root object
  found in the pool. \<open>Inl r\<close> completes the caller with the error \<open>r\<close>.
\<close>

definition EINVAL :: int where
  "EINVAL = 22"

definition rwl_init_existing_pool :: "rwl_constants \<Rightarrow> rwl \<Rightarrow> WriteLogPoolRoot \<Rightarrow> int + rwl" where
  "rwl_init_existing_pool K s root =
     (if layout_version root \<noteq> RWL_POOL_VERSION K then Inl (- EINVAL)
      else if ucast (block_size root) \<noteq> MIN_WRITE_ALLOC_SIZE K then Inl (- EINVAL)
      else
        let s1 = s\<lparr>pool_root := root,
                   m_total_log_entries := num_log_entries root,
                   m_first_free_entry := first_free_entry root,
                   m_first_valid_entry := first_valid_entry root\<rparr>
        in if m_first_free_entry s1 < m_first_valid_entry s1
           then Inr (s1\<lparr>m_free_log_entries :=
                          m_total_log_entries s1 -
                          (m_first_valid_entry s1 - m_first_free_entry s1) - 1\<rparr>)
           else Inr (s1\<lparr>m_free_log_entries :=
                          m_total_log_entries s1 -
                          (m_first_free_entry s1 - m_first_valid_entry s1) - 1\<rparr>))"

text \<open>
  \<^verbatim>\<open>alloc_flush_resources\<close> reserves the log slot of a flush request's sync point: it
  takes one from \<open>m_free_log_entries\<close>, when there is one.
\<close>

definition alloc_flush_resources :: "rwl \<Rightarrow> nat \<Rightarrow> rwl_error + rwl \<times> bool" where
  "alloc_flush_resources s f =
     (if m_log_entry_allocated (flush_reqs s f) then Inl AssertionFailed
      else if m_free_log_entries s \<noteq> 0
      then Inr (s\<lparr>m_free_log_entries := m_free_log_entries s - 1,
                  flush_reqs := (flush_reqs s)
                    (f := (flush_reqs s f)\<lparr>m_log_entry_allocated := True\<rparr>)\<rparr>, True)
      else Inr (s, False))"

text \<open>
  \<^verbatim>\<open>alloc_op_log_entries\<close> gives each operation of a batch (named by its log entry) the
  slot at \<open>m_first_free_entry\<close> and advances that index around the ring. The slots were
  reserved before: \<open>m_free_log_entries\<close> is not touched here.
\<close>

fun alloc_op_log_entries :: "rwl \<Rightarrow> nat list \<Rightarrow> rwl_error + rwl" where
  "alloc_op_log_entries s [] = Inr s"
| "alloc_op_log_entries s (operation # ops) =
     (if m_total_log_entries s = 0 then Inl DivideByZero
      else
        let entry_index = m_first_free_entry s;
            e = log_entries s operation
        in alloc_op_log_entries
             (s\<lparr>m_first_free_entry := (m_first_free_entry s + 1) mod m_total_log_entries s,
                log_entries := (log_entries s)
                  (operation := e\<lparr>log_entry_index := entry_index,
                                  ram_entry := (ram_entry e)\<lparr>entry_index := entry_index,
                                                              entry_valid := True\<rparr>\<rparr>),
                m_log_entries := m_log_entries s @ [operation]\<rparr>)
             ops)"

section \<open>Retirement\<close>

definition can_retire_entry :: "GenericLogEntry \<Rightarrow> bool" where
  "can_retire_entry e =
     (if \<not> completed e then False
      else if is_write (ram_entry e) then flushed e \<and> reader_count e = 0
      else True)"

text \<open>
  The first loop of \<^verbatim>\<open>retire_entries\<close>. It takes entries from the front of
  \<open>m_log_entries\<close> (the second argument, kept equal to that member) while there are some,
  fewer than \<open>frees_per_tx\<close> are retiring and the front one can be retired. The result is
  the state, the local \<open>first_valid_entry\<close> and the list \<open>retiring_entries\<close>. The
  \<^verbatim>\<open>front()\<close> taken before the emptiness test is not used when the list is empty.
\<close>

fun retire_entries_scan ::
  "rwl \<Rightarrow> nat list \<Rightarrow> u32 \<Rightarrow> nat list \<Rightarrow> nat \<Rightarrow> rwl_error + rwl \<times> u32 \<times> nat list" where
  "retire_entries_scan s [] first_valid retiring_entries frees_per_tx =
     Inr (s, first_valid, retiring_entries)"
| "retire_entries_scan s (entry # rest) first_valid retiring_entries frees_per_tx =
     (if length retiring_entries < frees_per_tx \<and> can_retire_entry (log_entries s entry)
      then
        if \<not> completed (log_entries s entry) then Inl AssertionFailed
        else if log_entry_index (log_entries s entry) \<noteq> first_valid then Inl AssertionFailed
        else if m_total_log_entries s = 0 then Inl DivideByZero
        else
          let first_valid' = (first_valid + 1) mod m_total_log_entries s;
              s1 = s\<lparr>m_log_entries := rest\<rparr>;
              retiring' = retiring_entries @ [entry]
          in if is_write (ram_entry (log_entries s1 entry))
             then
               (case remove_log_entry_locked s1 entry of
                  Inl err \<Rightarrow> Inl err
                | Inr s2 \<Rightarrow>
                    let write_entry = log_entries s2 entry in
                    if flushing write_entry then Inl AssertionFailed
                    else if \<not> flushed write_entry then Inl AssertionFailed
                    else if reader_count write_entry \<noteq> 0 then Inl AssertionFailed
                    else if referring_map_entries write_entry \<noteq> 0 then Inl AssertionFailed
                    else retire_entries_scan s2 rest first_valid' retiring' frees_per_tx)
             else retire_entries_scan s1 rest first_valid' retiring' frees_per_tx
      else Inr (s, first_valid, retiring_entries))"

text \<open>The last loop of \<^verbatim>\<open>retire_entries\<close>: the byte counts of the retired writes.\<close>

fun retire_entries_bytes :: "rwl_constants \<Rightarrow> rwl \<Rightarrow> nat list \<Rightarrow> rwl_error + rwl" where
  "retire_entries_bytes K s [] = Inr s"
| "retire_entries_bytes K s (entry # rest) =
     (let e = ram_entry (log_entries s entry) in
      if is_write e
      then
        if \<not> m_bytes_cached s \<ge> write_bytes e then Inl AssertionFailed
        else
          let s1 = s\<lparr>m_bytes_cached := m_bytes_cached s - write_bytes e\<rparr>;
              entry_allocation_size =
                (if write_bytes e < MIN_WRITE_ALLOC_SIZE K then MIN_WRITE_ALLOC_SIZE K
                 else write_bytes e)
          in if \<not> m_bytes_allocated s1 \<ge> entry_allocation_size then Inl AssertionFailed
             else retire_entries_bytes K
                    (s1\<lparr>m_bytes_allocated := m_bytes_allocated s1 - entry_allocation_size\<rparr>)
                    rest
      else retire_entries_bytes K s rest)"

text \<open>
  \<^verbatim>\<open>retire_entries\<close>. The transaction writes the new \<open>first_valid_entry\<close> to the pool
  root and frees the data buffer of each retired write (\<open>pmem_freed\<close> lists the buffers
  freed); its abort is an assertion failure.
\<close>

definition retire_entries ::
  "rwl_constants \<Rightarrow> rwl \<Rightarrow> nat \<Rightarrow> bool \<Rightarrow> rwl_error + rwl \<times> bool" where
  "retire_entries K s frees_per_tx tx_commits =
     (let initial_first_valid_entry = m_first_valid_entry s in
      case retire_entries_scan s (m_log_entries s) (m_first_valid_entry s) [] frees_per_tx of
        Inl err \<Rightarrow> Inl err
      | Inr (s1, first_valid, retiring_entries) \<Rightarrow>
          if retiring_entries \<noteq> []
          then
            if \<not> tx_commits then Inl AssertionFailed
            else
              let s2 = s1\<lparr>pool_root := (pool_root s1)\<lparr>first_valid_entry := first_valid\<rparr>,
                         pmem_freed := pmem_freed s1 @
                           map (\<lambda>entry. write_data (ram_entry (log_entries s1 entry)))
                             (filter (\<lambda>entry. is_write (ram_entry (log_entries s1 entry)))
                                retiring_entries)\<rparr>
              in if m_first_valid_entry s2 \<noteq> initial_first_valid_entry
                 then Inl AssertionFailed
                 else
                   (case retire_entries_bytes K
                           (s2\<lparr>m_first_valid_entry := first_valid,
                               m_free_log_entries :=
                                 m_free_log_entries s2 + of_nat (length retiring_entries)\<rparr>)
                           retiring_entries of
                      Inl err \<Rightarrow> Inl err
                    | Inr s3 \<Rightarrow> Inr (wake_up (s3\<lparr>m_alloc_failed_since_retire := False\<rparr>), True))
          else Inr (s1, False))"

text \<open>
  The ring accounting. \<open>ring_used\<close> is the number of occupied slots,
  \<open>(first_free_entry - first_valid_entry) mod N\<close>; \<open>ring_accounting s r\<close> says that the
  free slots, the \<open>r\<close> slots reserved and not yet allocated, and the occupied slots make
  up all but one of the \<open>N\<close> slots, with both indices inside the ring.
\<close>

definition ring_used :: "rwl \<Rightarrow> nat" where
  "ring_used s =
     nat ((uint (m_first_free_entry s) - uint (m_first_valid_entry s))
          mod uint (m_total_log_entries s))"

definition ring_accounting :: "rwl \<Rightarrow> nat \<Rightarrow> bool" where
  "ring_accounting s r =
     (m_first_free_entry s < m_total_log_entries s \<and>
      m_first_valid_entry s < m_total_log_entries s \<and>
      unat (m_free_log_entries s) + r + ring_used s = unat (m_total_log_entries s) - 1)"

section \<open>Recovery of an existing pool\<close>

text \<open>
  The locals of \<^verbatim>\<open>load_existing_entries\<close> that its first loop carries along, with the
  state of the log. \<open>sc_sync_point_entries\<close> is the \<^verbatim>\<open>std::map\<close> from a sync gen number
  to its sync point log entry, read only by key (an absent key and a null pointer are
  both \<open>None\<close>); \<open>sc_missing_sync_points\<close> is the \<^verbatim>\<open>std::map\<close> whose keys are the
  generations still missing, as the ascending list of its keys.
\<close>

record scan_state =
  sc_rwl :: rwl
  sc_entry_index :: u64
  sc_sync_point_entries :: "u64 \<Rightarrow> nat option"
  sc_highest_existing_sync_point :: "nat option"
  sc_missing_sync_points :: "u64 list"

definition missing_insert :: "u64 \<Rightarrow> u64 list \<Rightarrow> u64 list" where
  "missing_insert g xs = (if g \<in> set xs then xs else insort g xs)"

text \<open>
  One round of the first loop: the entry in slot \<open>sc_entry_index\<close> of the pool (\<open>pmem\<close>
  is the array of log entries in persistent memory) becomes a log entry in memory.
\<close>

definition load_scan_step ::
  "(nat \<Rightarrow> WriteLogPmemEntry) \<Rightarrow> scan_state \<Rightarrow> rwl_error + scan_state" where
  "load_scan_step pmem c =
     (let s = sc_rwl c;
          pmem_entry = pmem (unat (sc_entry_index c));
          gen = sync_gen_number pmem_entry;
          le = next_log_entry s;
          finish = (\<lambda>log_entry c1.
            let s1 = sc_rwl c1 in
            if m_total_log_entries s1 = 0 then Inl DivideByZero
            else Inr (c1\<lparr>sc_rwl := s1\<lparr>next_log_entry := le + 1,
                              log_entries := (log_entries s1)
                                (le := log_entry\<lparr>ram_entry := pmem_entry,
                                                 log_entry_index := ucast (sc_entry_index c),
                                                 completed := True\<rparr>),
                              m_log_entries := m_log_entries s1 @ [le]\<rparr>,
                            sc_entry_index :=
                              (sc_entry_index c + 1) mod ucast (m_total_log_entries s1)\<rparr>))
      in if ucast (entry_index pmem_entry) \<noteq> sc_entry_index c then Inl AssertionFailed
         else if is_sync_point pmem_entry
         then
           (case sc_highest_existing_sync_point c of
              Some h \<Rightarrow>
                if \<not> gen > sync_gen_number (ram_entry (log_entries s h))
                then Inl AssertionFailed
                else finish (new_SyncPointLogEntry gen)
                       (c\<lparr>sc_rwl := s\<lparr>m_current_sync_gen := gen\<rparr>,
                          sc_sync_point_entries := (sc_sync_point_entries c)(gen := Some le),
                          sc_missing_sync_points := removeAll gen (sc_missing_sync_points c),
                          sc_highest_existing_sync_point := Some le\<rparr>)
            | None \<Rightarrow>
                finish (new_SyncPointLogEntry gen)
                  (c\<lparr>sc_rwl := s\<lparr>m_current_sync_gen := gen\<rparr>,
                     sc_sync_point_entries := (sc_sync_point_entries c)(gen := Some le),
                     sc_missing_sync_points := removeAll gen (sc_missing_sync_points c),
                     sc_highest_existing_sync_point := Some le\<rparr>))
         else if is_write pmem_entry
         then
           (let write_entry =
                  new_WriteLogEntry None (image_offset_bytes pmem_entry) (write_bytes pmem_entry);
                c1 = (if sc_sync_point_entries c gen = None
                      then c\<lparr>sc_missing_sync_points :=
                               missing_insert gen (sc_missing_sync_points c)\<rparr>
                      else c)
            in case sc_highest_existing_sync_point c of
                 Some h \<Rightarrow>
                   if sync_gen_number (ram_entry (log_entries s h)) \<noteq>
                      sync_gen_number (pmem (unat (log_entry_index (log_entries s h))))
                   then Inl AssertionFailed
                   else if \<not> gen > sync_gen_number (ram_entry (log_entries s h))
                   then Inl AssertionFailed
                   else finish write_entry c1
               | None \<Rightarrow> finish write_entry c1)
         else Inl AssertionFailed)"

text \<open>
  The first loop. It walks the slots from \<open>first_valid_entry\<close> until it meets
  \<open>first_free_entry\<close>; with an index outside the ring it does not return.
\<close>

partial_function (option) load_scan ::
  "(nat \<Rightarrow> WriteLogPmemEntry) \<Rightarrow> scan_state \<Rightarrow> (rwl_error + scan_state) option" where
  "load_scan pmem c =
     (if sc_entry_index c = ucast (m_first_free_entry (sc_rwl c)) then Some (Inr c)
      else case load_scan_step pmem c of
             Inl e \<Rightarrow> Some (Inl e)
           | Inr c' \<Rightarrow> load_scan pmem c')"

text \<open>The second loop: a sync point for each missing generation, in ascending order.\<close>

fun load_missing ::
  "rwl \<Rightarrow> (u64 \<Rightarrow> nat option) \<Rightarrow> ctx list \<Rightarrow> u64 list \<Rightarrow>
   rwl_error + rwl \<times> (u64 \<Rightarrow> nat option) \<times> ctx list" where
  "load_missing s sync_point_entries later [] = Inr (s, sync_point_entries, later)"
| "load_missing s sync_point_entries later (g # gs) =
     (if g \<noteq> m_current_sync_gen s + 1 then Inl AssertionFailed
      else
        case init_flush_new_sync_point s later of
          Inl e \<Rightarrow> Inl e
        | Inr (s1, later1) \<Rightarrow>
            if g \<noteq> m_current_sync_gen s1 then Inl AssertionFailed
            else
              (case m_current_sync_point s1 of
                 None \<Rightarrow> Inl NullDereference
               | Some cur \<Rightarrow>
                   load_missing s1
                     (sync_point_entries(g := Some (sp_log_entry (sync_points s1 cur))))
                     later1 gs))"

text \<open>
  The third loop, over \<open>m_log_entries\<close>: every write entry is linked to the sync point
  entry of its generation, counted there, added to the map and to the dirty list.
\<close>

fun load_link ::
  "rwl_constants \<Rightarrow> rwl \<Rightarrow> (u64 \<Rightarrow> nat option) \<Rightarrow> nat list \<Rightarrow> rwl_error + rwl" where
  "load_link K s sync_point_entries [] = Inr s"
| "load_link K s sync_point_entries (p # ps) =
     (let e = log_entries s p in
      if is_write (ram_entry e)
      then
        (case sync_point_entries (sync_gen_number (ram_entry e)) of
           None \<Rightarrow> Inl AssertionFailed
         | Some sp \<Rightarrow>
             let s1 = s\<lparr>log_entries := (log_entries s)(p := e\<lparr>sync_point_entry := Some sp\<rparr>)\<rparr>;
                 spe = log_entries s1 sp;
                 s2 = s1\<lparr>log_entries := (log_entries s1)
                         (sp := spe\<lparr>m_writes := m_writes spe + 1,
                                     m_bytes := m_bytes spe + unat (write_bytes (ram_entry e)),
                                     m_writes_completed := m_writes_completed spe + 1\<rparr>)\<rparr>
             in case add_log_entry_locked s2 p of
                  Inl err \<Rightarrow> Inl err
                | Inr s3 \<Rightarrow>
                    let wb = write_bytes (ram_entry (log_entries s3 p));
                        bytes_allocated =
                          (if wb > MIN_WRITE_ALLOC_SIZE K then wb else MIN_WRITE_ALLOC_SIZE K)
                    in load_link K
                         (s3\<lparr>m_dirty_log_entries := m_dirty_log_entries s3 @ [p],
                             m_bytes_dirty := m_bytes_dirty s3 + wb,
                             m_bytes_allocated := m_bytes_allocated s3 + bytes_allocated,
                             m_bytes_cached := m_bytes_cached s3 + wb\<rparr>)
                         sync_point_entries ps)
      else if is_sync_point (ram_entry e) then load_link K s sync_point_entries ps
      else Inl AssertionFailed)"

definition load_scan_start :: "rwl \<Rightarrow> scan_state" where
  "load_scan_start s =
     \<lparr>sc_rwl = s, sc_entry_index = ucast (m_first_valid_entry s),
      sc_sync_point_entries = (\<lambda>_. None), sc_highest_existing_sync_point = None,
      sc_missing_sync_points = []\<rparr>"

definition load_existing_entries ::
  "rwl_constants \<Rightarrow> rwl \<Rightarrow> (nat \<Rightarrow> WriteLogPmemEntry) \<Rightarrow> ctx list \<Rightarrow>
   rwl_error + rwl \<times> ctx list" where
  "load_existing_entries K s pmem later =
     (case load_scan pmem (load_scan_start s) of
        None \<Rightarrow> Inl Diverged
      | Some (Inl e) \<Rightarrow> Inl e
      | Some (Inr c) \<Rightarrow>
          (case load_missing (sc_rwl c) (sc_sync_point_entries c) later
                  (sc_missing_sync_points c) of
             Inl e \<Rightarrow> Inl e
           | Inr (s2, sync_point_entries, later2) \<Rightarrow>
               (case load_link K s2 sync_point_entries (m_log_entries s2) of
                  Inl e \<Rightarrow> Inl e
                | Inr s3 \<Rightarrow> Inr (s3, later2))))"

text \<open>
  The creation of the missing sync points in the words of the amended claim: the first
  by \<^verbatim>\<open>new_sync_point\<close> alone, each later one by \<^verbatim>\<open>flush_new_sync_point\<close> without a
  caller's request.
\<close>

fun spec_flush_missing :: "rwl \<Rightarrow> ctx list \<Rightarrow> u64 list \<Rightarrow> rwl_error + rwl \<times> ctx list" where
  "spec_flush_missing s later [] = Inr (s, later)"
| "spec_flush_missing s later (g # gs) =
     (case flush_new_sync_point s None later of
        Inl e \<Rightarrow> Inl e
      | Inr (s1, later1) \<Rightarrow> spec_flush_missing s1 later1 gs)"

definition spec_create_missing :: "rwl \<Rightarrow> ctx list \<Rightarrow> u64 list \<Rightarrow> rwl_error + rwl \<times> ctx list" where
  "spec_create_missing s later gs =
     (case gs of
        [] \<Rightarrow> Inr (s, later)
      | g # gs' \<Rightarrow>
          let (s1, later1) = new_sync_point s later in spec_flush_missing s1 later1 gs')"

section \<open>Example states\<close>

definition K0 :: rwl_constants where
  "K0 = \<lparr>IN_FLIGHT_FLUSH_WRITE_LIMIT = 8, IN_FLIGHT_FLUSH_BYTES_LIMIT = 1048576,
         MIN_WRITE_ALLOC_SIZE = 512, MAX_WRITES_PER_SYNC_POINT = 256,
         MAX_BYTES_PER_SYNC_POINT = 8388608, MAX_LOG_ENTRIES = 1048576,
         RWL_POOL_VERSION = 1, CEPH_NOSNAP = - 2\<rparr>"

text \<open>A log object with nothing in it, from which the example states are built.\<close>

definition rwl0 :: rwl where
  "rwl0 = \<lparr>log_entries = (\<lambda>_. new_WriteLogEntry None 0 0), next_log_entry = 0,
           sync_points = (\<lambda>_. new_SyncPoint 0), next_sync_point = 0,
           flush_reqs = (\<lambda>_. new_C_FlushRequest NullFlushFinish), next_flush_req = 0,
           write_reqs = (\<lambda>_. new_C_WriteRequest [] [] 0 NullFlushFinish), next_write_req = 0,
           m_image_ctx = \<lparr>snap_id = - 2, read_only = False\<rparr>,
           m_block_to_log_entry_map = [], m_log_entries = [], m_dirty_log_entries = [],
           m_current_sync_point = None, m_current_sync_gen = 0,
           m_last_op_sequence_num = 0, m_flush_seen = False, m_persist_on_flush = False,
           m_persist_on_write_until_flush = True, m_invalidating = False,
           m_initialized = False, m_flush_ops_in_flight = 0, m_flush_bytes_in_flight = 0,
           m_lowest_flushing_sync_gen = 0, m_bytes_dirty = 0, m_bytes_cached = 0,
           m_bytes_allocated = 0, m_first_valid_entry = 0, m_first_free_entry = 0,
           m_total_log_entries = 0, m_free_log_entries = 0,
           m_alloc_failed_since_retire = False, m_wake_up_enabled = True,
           m_wake_up_requested = False, m_wake_up_scheduled = False, m_work_queue = [],
           pool_root = \<lparr>layout_version = 1, block_size = 512, num_log_entries = 0,
                        first_free_entry = 0, first_valid_entry = 0\<rparr>,
           pmem_freed = []\<rparr>"

text \<open>
  A state of the flusher: one completed write of 4096 bytes with sync-gen number 2 in the
  store at address 0, one flush in flight whose sync-gen number is 1.
\<close>

definition ex_flush_state :: rwl where
  "ex_flush_state =
     rwl0\<lparr>log_entries := (log_entries rwl0)
             (0 := (new_WriteLogEntry None 0 4096)
                     \<lparr>ram_entry := (new_WriteLogPmemEntry 0 4096)\<lparr>sync_gen_number := 2\<rparr>,
                      completed := True\<rparr>),
          m_dirty_log_entries := [1],
          m_bytes_dirty := 8192,
          m_flush_ops_in_flight := 1,
          m_flush_bytes_in_flight := 4096,
          m_lowest_flushing_sync_gen := 1\<rparr>"

text \<open>
  A log right after its first sync point (generation 1, no write yet) with a flush request
  at address 0, and the same log after three writes on that sync point.
\<close>

definition ex_sync_state :: rwl where
  "ex_sync_state =
     rwl0\<lparr>sync_points := (sync_points rwl0)(0 := new_SyncPoint 0),
          next_sync_point := 1,
          log_entries := (log_entries rwl0)(0 := new_SyncPointLogEntry 1),
          next_log_entry := 1,
          m_current_sync_point := Some 0,
          m_current_sync_gen := 1,
          m_initialized := True,
          flush_reqs := (flush_reqs rwl0)(0 := new_C_FlushRequest (UserRequest 7)),
          next_flush_req := 1\<rparr>"

definition ex_sync_state_written :: rwl where
  "ex_sync_state_written =
     ex_sync_state\<lparr>log_entries := (log_entries ex_sync_state)
        (0 := (new_SyncPointLogEntry 1)\<lparr>m_writes := 3, m_bytes := 12288\<rparr>)\<rparr>"

text \<open>
  The log of \<open>ex_sync_state\<close> after a flush has begun a second sync point: sync point 0
  is scheduled for append and sync point 1, with no write yet, is current.
\<close>

definition ex_sync_state_two :: rwl where
  "ex_sync_state_two =
     ex_sync_state\<lparr>sync_points := (sync_points ex_sync_state)
          (0 := (new_SyncPoint 0)\<lparr>later_sync_point := Some 1, m_append_scheduled := True\<rparr>,
           1 := (new_SyncPoint 1)\<lparr>earlier_sync_point := Some 0\<rparr>),
        next_sync_point := 2,
        log_entries := (log_entries ex_sync_state)(1 := new_SyncPointLogEntry 2),
        next_log_entry := 2,
        m_current_sync_point := Some 1,
        m_current_sync_gen := 2\<rparr>"

text \<open>The log of \<open>ex_sync_state\<close> on a read-only image.\<close>

definition ex_read_only_state :: rwl where
  "ex_read_only_state = ex_sync_state\<lparr>m_image_ctx := \<lparr>snap_id = - 2, read_only = True\<rparr>\<rparr>"

text \<open>The log of \<open>ex_sync_state\<close> on a snapshot of the image.\<close>

definition ex_snapshot_state :: rwl where
  "ex_snapshot_state = ex_sync_state\<lparr>m_image_ctx := \<lparr>snap_id = 5, read_only = False\<rparr>\<rparr>"



text \<open>
  A log of eight slots with two writes of ten bytes in slots 0 and 1, both mapped. The
  first is completed and flushed, the second is not completed yet.
\<close>

definition ex_retire_state :: rwl where
  "ex_retire_state =
     rwl0\<lparr>log_entries := (log_entries rwl0)
            (1 := (new_WriteLogEntry None 0 10)
                    \<lparr>ram_entry := (new_WriteLogPmemEntry 0 10)\<lparr>write_data := 77\<rparr>,
                     log_entry_index := 0, completed := True, flushed := True,
                     referring_map_entries := 1\<rparr>,
             2 := (new_WriteLogEntry None 20 10)
                    \<lparr>ram_entry := (new_WriteLogPmemEntry 20 10)\<lparr>write_data := 78\<rparr>,
                     log_entry_index := 1, referring_map_entries := 1\<rparr>),
          next_log_entry := 3,
          m_log_entries := [1, 2],
          m_block_to_log_entry_map :=
            [\<lparr>block_extent = \<lparr>block_start = 0, block_end = 9\<rparr>, log_entry = Some 1\<rparr>,
             \<lparr>block_extent = \<lparr>block_start = 20, block_end = 29\<rparr>, log_entry = Some 2\<rparr>],
          m_total_log_entries := 8,
          m_first_valid_entry := 0,
          m_first_free_entry := 2,
          m_free_log_entries := 5,
          m_bytes_cached := 20,
          m_bytes_allocated := 1024,
          pool_root := \<lparr>layout_version = 1, block_size = 512, num_log_entries = 8,
                        first_free_entry = 2, first_valid_entry = 0\<rparr>\<rparr>"

text \<open>
  An empty log of eight slots, and what becomes of it when flush requests 1 and 2 each
  reserve a slot and then a batch of one operation (log entry 3) is given its slot.
\<close>

definition ex_ring_state :: rwl where
  "ex_ring_state = rwl0\<lparr>m_total_log_entries := 8, m_free_log_entries := 7\<rparr>"

definition ex_ring_state_1 :: rwl where
  "ex_ring_state_1 =
     ex_ring_state\<lparr>m_free_log_entries := 6,
        flush_reqs := (flush_reqs ex_ring_state)
          (1 := (flush_reqs ex_ring_state 1)\<lparr>m_log_entry_allocated := True\<rparr>)\<rparr>"

definition ex_ring_state_2 :: rwl where
  "ex_ring_state_2 =
     ex_ring_state_1\<lparr>m_free_log_entries := 5,
        flush_reqs := (flush_reqs ex_ring_state_1)
          (2 := (flush_reqs ex_ring_state_1 2)\<lparr>m_log_entry_allocated := True\<rparr>)\<rparr>"

definition ex_ring_state_3 :: rwl where
  "ex_ring_state_3 =
     ex_ring_state_2\<lparr>m_first_free_entry := 1,
        log_entries := (log_entries ex_ring_state_2)
          (3 := (log_entries ex_ring_state_2 3)
                  \<lparr>log_entry_index := 0,
                   ram_entry := (ram_entry (log_entries ex_ring_state_2 3))
                                  \<lparr>entry_index := 0, entry_valid := True\<rparr>\<rparr>),
        m_log_entries := [3]\<rparr>"

text \<open>The root of a pool of eight slots whose slots 2, 3 and 4 are occupied.\<close>

definition ex_pool_root :: WriteLogPoolRoot where
  "ex_pool_root = \<lparr>layout_version = 1, block_size = 512, num_log_entries = 8,
                    first_free_entry = 5, first_valid_entry = 2\<rparr>"

text \<open>
  The log after \<^verbatim>\<open>rwl_init\<close> has laid out a new pool of eight slots, and after it has
  opened the pool of \<open>ex_pool_root\<close>.
\<close>

definition ex_new_pool_state :: rwl where
  "ex_new_pool_state =
     rwl0\<lparr>pool_root := \<lparr>layout_version = 1, block_size = 512, num_log_entries = 8,
                         first_free_entry = 0, first_valid_entry = 0\<rparr>,
          m_total_log_entries := 8, m_free_log_entries := 7\<rparr>"

definition ex_reopened_state :: rwl where
  "ex_reopened_state =
     rwl0\<lparr>pool_root := ex_pool_root, m_total_log_entries := 8, m_first_free_entry := 5,
          m_first_valid_entry := 2, m_free_log_entries := 4\<rparr>"

section \<open>Theorems: the flusher\<close>

lemma wake_up_fields [simp]:
  "log_entries (wake_up s) = log_entries s"
  "m_dirty_log_entries (wake_up s) = m_dirty_log_entries s"
  "m_bytes_dirty (wake_up s) = m_bytes_dirty s"
  "m_flush_ops_in_flight (wake_up s) = m_flush_ops_in_flight s"
  "m_flush_bytes_in_flight (wake_up s) = m_flush_bytes_in_flight s"
  by (simp_all add: wake_up_def Let_def)

subsection \<open>C3: eligibility of a dirty entry for flushing\<close>

text \<open>
  C3, as stated, fails: while the log is invalidating, \<open>can_flush_entry\<close> answers true for
  every write entry. Here a completed write with sync-gen number 2 is flushable although a
  flush with the lower sync-gen number 1 is in flight.
\<close>

theorem can_flush_entry_invalidating_counterexample:
  "can_flush_entry K0 (ex_flush_state\<lparr>m_invalidating := True\<rparr>) 0 = Inr True \<and>
   \<not> spec_can_flush_entry K0 (ex_flush_state\<lparr>m_invalidating := True\<rparr>) 0"
  by (simp add: can_flush_entry_def spec_can_flush_entry_def ex_flush_state_def rwl0_def
      new_WriteLogEntry_def new_WriteLogPmemEntry_def is_write_def K0_def word_le_nat_alt)

text \<open>
  C3 (amended): for a write entry, \<open>can_flush_entry\<close> returns true exactly when the log
  is invalidating, or the entry is completed and (no flush is in flight or its sync-gen
  number is at most the lowest sync-gen number flushing) and the in-flight flush count
  and the in-flight flush bytes are not above their limits.
\<close>

theorem can_flush_entry_amended:
  assumes "is_write (ram_entry (log_entries s p))"
  shows "can_flush_entry K s p =
     Inr (m_invalidating s \<or>
          (completed (log_entries s p) \<and>
           (m_flush_ops_in_flight s = 0 \<or>
            sync_gen_number (ram_entry (log_entries s p)) \<le> m_lowest_flushing_sync_gen s) \<and>
           m_flush_ops_in_flight s \<le> IN_FLIGHT_FLUSH_WRITE_LIMIT K \<and>
           m_flush_bytes_in_flight s \<le> IN_FLIGHT_FLUSH_BYTES_LIMIT K))"
  using assms by (auto simp: can_flush_entry_def Let_def not_less)

theorem can_flush_entry_amended_witness:
  "is_write (ram_entry (log_entries ex_flush_state 0)) \<and>
   can_flush_entry K0 ex_flush_state 0 = Inr False \<and>
   can_flush_entry K0 (ex_flush_state\<lparr>m_lowest_flushing_sync_gen := 2\<rparr>) 0 = Inr True"
proof -
  have w: "is_write (ram_entry (log_entries ex_flush_state 0))"
    by (simp add: ex_flush_state_def rwl0_def new_WriteLogEntry_def
        new_WriteLogPmemEntry_def is_write_def)
  have w2: "is_write (ram_entry (log_entries (ex_flush_state\<lparr>m_lowest_flushing_sync_gen := 2\<rparr>) 0))"
    using w by simp
  show ?thesis
    using w can_flush_entry_amended [OF w, of K0] can_flush_entry_amended [OF w2, of K0]
    by (simp add: ex_flush_state_def rwl0_def new_WriteLogEntry_def
        new_WriteLogPmemEntry_def K0_def word_le_nat_alt)
qed

subsection \<open>C8: completion of the downstream write of a dirty entry\<close>

text \<open>
  C8: when the downstream write of a dirty entry completes with an error, the entry is put
  back at the head of the dirty list, its flushed flag is left as it was, the dirty bytes
  are not decremented, and the error code has no effect on the outcome beyond its sign (it
  reaches no caller); when it completes with success (and the dirty bytes cover the
  entry, as the code asserts) the flushed flag is set and the dirty bytes go down by the
  entry's \<open>write_bytes\<close>.
\<close>

theorem flush_entry_complete_requeues_on_error:
  "(r < 0 \<longrightarrow>
      (\<exists>s'. flush_entry_complete s p r = Inr s' \<and>
            m_dirty_log_entries s' = p # m_dirty_log_entries s \<and>
            flushed (log_entries s' p) = flushed (log_entries s p) \<and>
            m_bytes_dirty s' = m_bytes_dirty s \<and>
            flush_entry_complete s p r = flush_entry_complete s p (- 1))) \<and>
   (0 \<le> r \<and> write_bytes (ram_entry (log_entries s p)) \<le> m_bytes_dirty s \<longrightarrow>
      (\<exists>s'. flush_entry_complete s p r = Inr s' \<and>
            flushed (log_entries s' p) \<and>
            m_dirty_log_entries s' = m_dirty_log_entries s \<and>
            m_bytes_dirty s' = m_bytes_dirty s - write_bytes (ram_entry (log_entries s p)) \<and>
            unat (m_bytes_dirty s') + unat (write_bytes (ram_entry (log_entries s p)))
              = unat (m_bytes_dirty s)))"
  by (auto simp: flush_entry_complete_def Let_def unat_sub word_le_nat_alt)

theorem flush_entry_complete_witness:
  "(\<exists>s'. flush_entry_complete ex_flush_state 0 (- 5) = Inr s' \<and>
         m_dirty_log_entries s' = [0, 1] \<and> \<not> flushed (log_entries s' 0) \<and>
         m_bytes_dirty s' = 8192) \<and>
   (\<exists>s'. flush_entry_complete ex_flush_state 0 0 = Inr s' \<and>
         flushed (log_entries s' 0) \<and> m_dirty_log_entries s' = [1] \<and>
         m_bytes_dirty s' = 4096)"
proof -
  have b: "write_bytes (ram_entry (log_entries ex_flush_state 0)) \<le> m_bytes_dirty ex_flush_state"
    by (simp add: ex_flush_state_def rwl0_def new_WriteLogEntry_def new_WriteLogPmemEntry_def)
  have f: "\<not> flushed (log_entries ex_flush_state 0)" "m_dirty_log_entries ex_flush_state = [1]"
    "m_bytes_dirty ex_flush_state = 8192"
    "write_bytes (ram_entry (log_entries ex_flush_state 0)) = 4096"
    by (simp_all add: ex_flush_state_def rwl0_def new_WriteLogEntry_def new_WriteLogPmemEntry_def)
  show ?thesis
    using flush_entry_complete_requeues_on_error [of "- 5" ex_flush_state 0]
      flush_entry_complete_requeues_on_error [of 0 ex_flush_state 0] b f
    by auto
qed

section \<open>Theorems: completion of the user's request\<close>

lemma user_req_inv_complete: "user_req_inv q \<Longrightarrow> user_req_inv (complete_user_request r q)"
  by (auto simp: user_req_inv_def complete_user_request_def)

lemma user_req_inv_dispatch:
  "user_req_inv q \<Longrightarrow> user_req_inv (dispatch_aio_write_user_completion pof q)"
  by (simp add: dispatch_aio_write_user_completion_def user_req_inv_complete)

lemma user_req_inv_complete_write_req:
  "user_req_inv q \<Longrightarrow> user_req_inv (complete_write_req pof r q)"
  by (simp add: complete_write_req_def user_req_inv_complete)

lemma user_req_inv_on_finish_flag:
  "user_req_inv q \<Longrightarrow> user_req_inv (q\<lparr>m_on_finish_completed := b\<rparr>)"
  by (auto simp: user_req_inv_def split: if_splits)

lemma user_req_inv_finish:
  "user_req_inv q \<Longrightarrow> C_BlockIORequest_finish (complete_write_req pof) r q = Inr q' \<Longrightarrow>
   user_req_inv q'"
  by (auto simp: C_BlockIORequest_finish_def Let_def user_req_inv_complete_write_req
      user_req_inv_on_finish_flag user_req_inv_complete split: if_splits)

lemma user_req_inv_run: "user_req_inv q \<Longrightarrow> user_req_inv (run_completions pof cs q)"
proof (induction pof cs q rule: run_completions.induct)
  case (1 pof req)
  then show ?case by simp
next
  case (2 pof cs req)
  then show ?case by (simp add: user_req_inv_dispatch)
next
  case (3 pof r cs req)
  show ?case
  proof (cases "C_BlockIORequest_finish (complete_write_req pof) r req")
    case (Inl e)
    then show ?thesis using 3 by (simp add: user_req_inv_complete)
  next
    case (Inr q)
    then show ?thesis using 3 user_req_inv_finish [OF "3.prems" Inr] by simp
  qed
next
  case (4 pof r cs req)
  then show ?case by (simp add: user_req_inv_complete)
qed

lemma user_req_inv_length: "user_req_inv q \<Longrightarrow> length (user_req_calls q) \<le> 1"
  by (auto simp: user_req_inv_def split: if_splits)

text \<open>
  C10: the user's completion callback of a block IO request is called at most once,
  whatever calls try to complete it and in whatever order (the acknowledgement at
  dispatch, \<open>finish\<close> with its \<open>_on_finish\<close>, a bare \<open>complete_user_request\<close>), each
  compare-and-exchange being one atomic step; a second attempt changes nothing. On the
  path of a write (dispatch, then \<open>finish\<close> with \<open>complete_write_req\<close>) the one call
  carries 0 in persist-on-flush mode (the early acknowledgement) and the result of the
  persist otherwise; on the path of a flush it carries the result.
\<close>

theorem user_request_completed_at_most_once:
  "length (user_req_calls (run_completions pof cs (new_C_WriteRequest es b fl u))) \<le> 1 \<and>
   complete_user_request r2 (complete_user_request r1 req) = complete_user_request r1 req \<and>
   (\<exists>q. C_BlockIORequest_finish (complete_write_req pof) r
          (dispatch_aio_write_user_completion pof (new_C_WriteRequest es b fl u)) = Inr q \<and>
        user_req_calls q = [if pof then 0 else r]) \<and>
   (\<exists>q. C_BlockIORequest_finish flush_req_on_finish r (new_C_FlushRequest u) = Inr q \<and>
        user_req_calls q = [r])"
proof -
  have i: "user_req_inv (new_C_WriteRequest es b fl u)"
    by (simp add: user_req_inv_def new_C_WriteRequest_def)
  have 1: "length (user_req_calls (run_completions pof cs (new_C_WriteRequest es b fl u))) \<le> 1"
    by (rule user_req_inv_length [OF user_req_inv_run [OF i]])
  have 2: "complete_user_request r2 (complete_user_request r1 req) = complete_user_request r1 req"
    by (simp add: complete_user_request_def)
  have 3: "\<exists>q. C_BlockIORequest_finish (complete_write_req pof) r
          (dispatch_aio_write_user_completion pof (new_C_WriteRequest es b fl u)) = Inr q \<and>
        user_req_calls q = [if pof then 0 else r]"
    by (simp add: C_BlockIORequest_finish_def complete_write_req_def
        dispatch_aio_write_user_completion_def complete_user_request_def
        new_C_WriteRequest_def Let_def)
  have 4: "\<exists>q. C_BlockIORequest_finish flush_req_on_finish r (new_C_FlushRequest u) = Inr q \<and>
        user_req_calls q = [r]"
    by (simp add: C_BlockIORequest_finish_def flush_req_on_finish_def complete_user_request_def
        new_C_FlushRequest_def Let_def)
  show ?thesis using 1 2 3 4 by blast
qed

theorem user_request_completed_at_most_once_witness:
  "user_req_calls (run_completions True [DispatchAck, Finish (- 5), CompleteUserRequest 7]
      (new_C_WriteRequest [(0, 4096)] [] 0 (UserRequest 1))) = [0] \<and>
   user_req_calls (run_completions False [DispatchAck, Finish (- 5), CompleteUserRequest 7]
      (new_C_WriteRequest [(0, 4096)] [] 0 (UserRequest 1))) = [- 5]"
proof -
  have "length (user_req_calls (run_completions True [DispatchAck, Finish (- 5), CompleteUserRequest 7]
      (new_C_WriteRequest [(0, 4096)] [] 0 (UserRequest 1)))) \<le> 1"
    using user_request_completed_at_most_once by blast
  then show ?thesis
    by (simp add: C_BlockIORequest_finish_def complete_write_req_def
        dispatch_aio_write_user_completion_def complete_user_request_def
        new_C_WriteRequest_def Let_def)
qed

section \<open>Theorems: sync points and the flush operation\<close>

lemma earlier_all_scheduled_chain:
  assumes ch: "\<And>p e. p < N \<Longrightarrow> earlier_sync_point (sps p) = Some e \<Longrightarrow>
                 e < p \<and> m_append_scheduled (sps e)"
  shows "q < N \<Longrightarrow> earlier_all_scheduled sps (earlier_sync_point (sps q)) = Some True"
proof (induction q rule: less_induct)
  case (less q)
  show ?case
  proof (cases "earlier_sync_point (sps q)")
    case None
    then show ?thesis by (simp add: earlier_all_scheduled.simps)
  next
    case (Some e)
    from ch [OF less.prems Some] have e: "e < q" "m_append_scheduled (sps e)" by auto
    from less.IH [OF e(1)] less.prems e(1)
    have "earlier_all_scheduled sps (earlier_sync_point (sps e)) = Some True" by simp
    then show ?thesis using Some e(2)
      by (subst earlier_all_scheduled.simps) simp
  qed
qed

lemma new_sync_point_fields:
  "m_current_sync_point (fst (new_sync_point s later)) = Some (next_sync_point s)"
  "next_sync_point (fst (new_sync_point s later)) = next_sync_point s + 1"
  "next_log_entry (fst (new_sync_point s later)) = next_log_entry s + 1"
  "m_current_sync_gen (fst (new_sync_point s later)) = m_current_sync_gen s + 1"
  "log_entries (fst (new_sync_point s later)) =
     (log_entries s)(next_log_entry s := new_SyncPointLogEntry (m_current_sync_gen s + 1))"
  "flush_reqs (fst (new_sync_point s later)) = flush_reqs s"
  "next_flush_req (fst (new_sync_point s later)) = next_flush_req s"
  "m_last_op_sequence_num (fst (new_sync_point s later)) = m_last_op_sequence_num s"
  "m_persist_on_flush (fst (new_sync_point s later)) = m_persist_on_flush s"
  "m_initialized (fst (new_sync_point s later)) = m_initialized s"
  "m_log_entries (fst (new_sync_point s later)) = m_log_entries s"
  "m_block_to_log_entry_map (fst (new_sync_point s later)) = m_block_to_log_entry_map s"
  "m_dirty_log_entries (fst (new_sync_point s later)) = m_dirty_log_entries s"
  by (simp_all add: new_sync_point_def Let_def split: option.splits prod.splits)

lemma new_sync_point_later:
  "snd (new_sync_point s later) =
     (case m_current_sync_point s of None \<Rightarrow> later
      | Some old \<Rightarrow> later @ [ActivatePriorPersisted old])"
  by (simp add: new_sync_point_def Let_def split: option.splits prod.splits)

lemma new_sync_point_other:
  assumes "p \<noteq> next_sync_point s"
  shows "earlier_sync_point (sync_points (fst (new_sync_point s later)) p) =
           earlier_sync_point (sync_points s p)"
    "m_append_scheduled (sync_points (fst (new_sync_point s later)) p) =
           m_append_scheduled (sync_points s p)"
    "m_on_sync_point_persisted (sync_points (fst (new_sync_point s later)) p) =
           m_on_sync_point_persisted (sync_points s p)"
    "sp_log_entry (sync_points (fst (new_sync_point s later)) p) = sp_log_entry (sync_points s p)"
  using assms
  by (simp_all add: new_sync_point_def Let_def split: option.splits prod.splits)

lemma new_sync_point_new:
  assumes "m_current_sync_point s \<noteq> Some (next_sync_point s)"
  shows "earlier_sync_point (sync_points (fst (new_sync_point s later)) (next_sync_point s)) =
           m_current_sync_point s"
    "\<not> m_append_scheduled (sync_points (fst (new_sync_point s later)) (next_sync_point s))"
    "m_on_sync_point_persisted (sync_points (fst (new_sync_point s later)) (next_sync_point s)) = []"
    "sp_log_entry (sync_points (fst (new_sync_point s later)) (next_sync_point s)) =
           next_log_entry s"
  using assms
  by (auto simp: new_sync_point_def Let_def new_SyncPoint_def split: option.splits prod.splits)

lemma flush_new_sync_point_result:
  assumes ok: "sync_chain_ok s" and cur: "m_current_sync_point s = Some cur"
    and f: "f = (case fr of Some g \<Rightarrow> g | None \<Rightarrow> next_flush_req s)"
  shows "\<exists>s'. flush_new_sync_point s fr later =
            Inr (s', later @ [ActivatePriorPersisted cur, ActivateSyncPointPersist cur]) \<and>
     sync_chain_ok s' \<and>
     m_current_sync_point s' = Some (next_sync_point s) \<and>
     next_sync_point s' = next_sync_point s + 1 \<and>
     next_log_entry s' = next_log_entry s + 1 \<and>
     m_current_sync_gen s' = m_current_sync_gen s + 1 \<and>
     sp_log_entry (sync_points s' (next_sync_point s)) = next_log_entry s \<and>
     log_entries s' = (log_entries s)(next_log_entry s := new_SyncPointLogEntry (m_current_sync_gen s + 1)) \<and>
     earlier_sync_point (sync_points s' (next_sync_point s)) = Some cur \<and>
     m_append_scheduled (sync_points s' cur) \<and>
     m_on_sync_point_persisted (sync_points s' cur) =
       m_on_sync_point_persisted (sync_points s cur) @ [FlushRequest f] \<and>
     to_append (flush_reqs s' f) = Some cur \<and>
     (\<forall>p. p \<noteq> next_sync_point s \<longrightarrow>
        sp_log_entry (sync_points s' p) = sp_log_entry (sync_points s p)) \<and>
     m_last_op_sequence_num s' = m_last_op_sequence_num s \<and>
     m_persist_on_flush s' = m_persist_on_flush s \<and>
     m_initialized s' = m_initialized s \<and>
     m_log_entries s' = m_log_entries s \<and>
     m_block_to_log_entry_map s' = m_block_to_log_entry_map s \<and>
     m_dirty_log_entries s' = m_dirty_log_entries s"
proof -
  define s1 where "s1 = (case fr of Some g \<Rightarrow> s
      | None \<Rightarrow> (let (sa, f) = make_flush_req s NullFlushFinish in
          sa\<lparr>flush_reqs := (flush_reqs sa)(f := (flush_reqs sa f)\<lparr>m_internal := True\<rparr>)\<rparr>))"
  have pre: "(case fr of Some f \<Rightarrow> (s, f)
      | None \<Rightarrow> (let (sa, f) = make_flush_req s NullFlushFinish in
          (sa\<lparr>flush_reqs := (flush_reqs sa)(f := (flush_reqs sa f)\<lparr>m_internal := True\<rparr>)\<rparr>, f)))
      = (s1, f)"
    by (simp add: s1_def f make_flush_req_def Let_def split: option.splits)
  have s1: "sync_points s1 = sync_points s" "next_sync_point s1 = next_sync_point s"
    "m_current_sync_point s1 = m_current_sync_point s" "next_log_entry s1 = next_log_entry s"
    "m_current_sync_gen s1 = m_current_sync_gen s" "log_entries s1 = log_entries s"
    "m_last_op_sequence_num s1 = m_last_op_sequence_num s"
    "m_persist_on_flush s1 = m_persist_on_flush s" "m_initialized s1 = m_initialized s"
    "m_log_entries s1 = m_log_entries s"
    "m_block_to_log_entry_map s1 = m_block_to_log_entry_map s"
    "m_dirty_log_entries s1 = m_dirty_log_entries s"
    by (simp_all add: s1_def make_flush_req_def Let_def split: option.splits)
  let ?n = "next_sync_point s"
  from ok cur have curlt: "cur < ?n" by (simp add: sync_chain_ok_def)
  define s2 where "s2 = fst (new_sync_point s1 later)"
  have curn: "m_current_sync_point s1 \<noteq> Some (next_sync_point s1)"
    using cur curlt s1 by simp
  have s2: "new_sync_point s1 later = (s2, later @ [ActivatePriorPersisted cur])"
    "m_current_sync_point s2 = Some ?n" "next_sync_point s2 = ?n + 1"
    "next_log_entry s2 = next_log_entry s + 1"
    "m_current_sync_gen s2 = m_current_sync_gen s + 1"
    "sp_log_entry (sync_points s2 ?n) = next_log_entry s"
    "log_entries s2 = (log_entries s)(next_log_entry s := new_SyncPointLogEntry (m_current_sync_gen s + 1))"
    "earlier_sync_point (sync_points s2 ?n) = Some cur"
    "\<And>p. p \<noteq> ?n \<Longrightarrow> earlier_sync_point (sync_points s2 p) = earlier_sync_point (sync_points s p)"
    "\<And>p. p \<noteq> ?n \<Longrightarrow> m_append_scheduled (sync_points s2 p) = m_append_scheduled (sync_points s p)"
    "\<And>p. p \<noteq> ?n \<Longrightarrow> m_on_sync_point_persisted (sync_points s2 p) = m_on_sync_point_persisted (sync_points s p)"
    "\<And>p. p \<noteq> ?n \<Longrightarrow> sp_log_entry (sync_points s2 p) = sp_log_entry (sync_points s p)"
    "flush_reqs s2 = flush_reqs s1"
    "m_last_op_sequence_num s2 = m_last_op_sequence_num s"
    "m_persist_on_flush s2 = m_persist_on_flush s" "m_initialized s2 = m_initialized s"
    "m_log_entries s2 = m_log_entries s"
    "m_block_to_log_entry_map s2 = m_block_to_log_entry_map s"
    "m_dirty_log_entries s2 = m_dirty_log_entries s"
    using new_sync_point_fields [of s1 later] new_sync_point_later [of s1 later]
      new_sync_point_other [of _ s1 later] new_sync_point_new [OF curn, of later] s1 cur
    by (simp_all add: s2_def prod_eq_iff)
  let ?sps3 = "(sync_points s2)(cur := (sync_points s2 cur)\<lparr>m_append_scheduled := True\<rparr>)"
  have chain3: "\<And>p e. p < ?n + 1 \<Longrightarrow> earlier_sync_point (?sps3 p) = Some e \<Longrightarrow>
                 e < p \<and> m_append_scheduled (?sps3 e)"
  proof -
    fix p e assume p: "p < ?n + 1" and e: "earlier_sync_point (?sps3 p) = Some e"
    have e2: "earlier_sync_point (sync_points s2 p) = Some e" using e by (simp split: if_splits)
    show "e < p \<and> m_append_scheduled (?sps3 e)"
    proof (cases "p = ?n")
      case True
      with e2 s2(8) have "e = cur" by simp
      then show ?thesis using True curlt by simp
    next
      case False
      with p have plt: "p < ?n" by simp
      from e2 s2(9) [OF False] have "earlier_sync_point (sync_points s p) = Some e" by simp
      with ok plt have "e < p" "m_append_scheduled (sync_points s e)"
        by (auto simp: sync_chain_ok_def)
      moreover then have "e \<noteq> ?n" using plt by simp
      ultimately show ?thesis using s2(10) [of e] by simp
    qed
  qed
  have loop: "earlier_all_scheduled ?sps3 (earlier_sync_point (sync_points s2 cur)) = Some True"
    using earlier_all_scheduled_chain [of "?n + 1" ?sps3 cur, OF chain3] curlt by simp
  let ?s' = "s2\<lparr>flush_reqs := (flush_reqs s2)(f := (flush_reqs s2 f)\<lparr>to_append := Some cur\<rparr>),
      sync_points := ?sps3(cur := (?sps3 cur)\<lparr>m_sync_point_persist_finisher := Some f,
          m_on_sync_point_persisted := m_on_sync_point_persisted (?sps3 cur) @ [FlushRequest f]\<rparr>)\<rparr>"
  have res: "flush_new_sync_point s fr later =
            Inr (?s', later @ [ActivatePriorPersisted cur, ActivateSyncPointPersist cur])"
    unfolding flush_new_sync_point_def pre
    using s2(1,2,8) loop by (simp add: Let_def)
  have curn2: "cur \<noteq> ?n" using curlt by simp
  have ok': "sync_chain_ok ?s'"
    unfolding sync_chain_ok_def
  proof (intro conjI allI impI)
    fix p e assume p: "p < next_sync_point ?s'"
      and e: "earlier_sync_point (sync_points ?s' p) = Some e"
    from p s2(3) have p1: "p < ?n + 1" by simp
    from e have "earlier_sync_point (?sps3 p) = Some e" by (simp split: if_splits)
    from chain3 [OF p1 this] show "e < p" "m_append_scheduled (sync_points ?s' e)"
      by (simp_all split: if_splits)
  next
    fix c assume "m_current_sync_point ?s' = Some c"
    then show "c < next_sync_point ?s'" using s2(2,3) by simp
  qed
  show ?thesis
    apply (rule exI [of _ ?s'])
    using res ok' s2 curn2 by simp
qed

lemma aio_flush_flush_seen_fields:
  "sync_points (aio_flush_flush_seen s f d) = sync_points s"
  "next_sync_point (aio_flush_flush_seen s f d) = next_sync_point s"
  "m_current_sync_point (aio_flush_flush_seen s f d) = m_current_sync_point s"
  "log_entries (aio_flush_flush_seen s f d) = log_entries s"
  "next_log_entry (aio_flush_flush_seen s f d) = next_log_entry s"
  "m_current_sync_gen (aio_flush_flush_seen s f d) = m_current_sync_gen s"
  "m_flush_seen (aio_flush_flush_seen s f d)"
  by (simp_all add: aio_flush_flush_seen_def Let_def)

lemma sync_chain_ok_flush_seen:
  "sync_chain_ok (aio_flush_flush_seen s f d) = sync_chain_ok s"
  by (simp add: sync_chain_ok_def aio_flush_flush_seen_fields)

text \<open>
  The guarded context of \<open>aio_flush\<close>, run on a log whose sync-point chain has the shape
  the code asserts: the outcome for each of the three cases it tells apart.
\<close>

lemma aio_flush_guarded_outcomes:
  assumes ok: "sync_chain_ok s" and cur: "m_current_sync_point s = Some cur"
  shows "\<exists>s' effs. aio_flush_guarded s f cell detained = Inr (s', effs) \<and>
     last effs = ReleaseGuardedRequest cell \<and>
     (if m_writes (log_entries s (sp_log_entry (sync_points s cur))) \<noteq> 0
      then flush_new_sync_point (aio_flush_flush_seen s f detained) (Some f) [] =
             Inr (s', [ActivatePriorPersisted cur, ActivateSyncPointPersist cur]) \<and>
           m_current_sync_point s' = Some (next_sync_point s) \<and>
           earlier_sync_point (sync_points s' (next_sync_point s)) = Some cur \<and>
           m_append_scheduled (sync_points s' cur) \<and>
           to_append (flush_reqs s' f) = Some cur \<and>
           m_on_sync_point_persisted (sync_points s' cur) =
             m_on_sync_point_persisted (sync_points s cur) @ [FlushRequest f] \<and>
           effs = [Complete (ActivatePriorPersisted cur) 0,
                   Complete (ActivateSyncPointPersist cur) 0, ReleaseGuardedRequest cell]
      else case earlier_sync_point (sync_points s cur) of
             Some e \<Rightarrow>
               m_on_sync_point_persisted (sync_points s' e) =
                 m_on_sync_point_persisted (sync_points s e) @ [FlushRequest f] \<and>
               m_current_sync_point s' = Some cur \<and>
               next_sync_point s' = next_sync_point s \<and>
               effs = [ReleaseGuardedRequest cell]
           | None \<Rightarrow>
               sync_points s' = sync_points s \<and>
               m_current_sync_point s' = Some cur \<and>
               next_sync_point s' = next_sync_point s \<and>
               effs = [Complete (FlushRequest f) 0, ReleaseGuardedRequest cell])"
proof -
  let ?s1 = "aio_flush_flush_seen s f detained"
  have ok1: "sync_chain_ok ?s1" using ok by (simp add: sync_chain_ok_flush_seen)
  have cur1: "m_current_sync_point ?s1 = Some cur"
    using cur by (simp add: aio_flush_flush_seen_fields)
  show ?thesis
  proof (cases "m_writes (log_entries s (sp_log_entry (sync_points s cur))) \<noteq> 0")
    case True
    from flush_new_sync_point_result [OF ok1 cur1, of f "Some f" "[]"]
    obtain s' where s': "flush_new_sync_point ?s1 (Some f) [] =
          Inr (s', [ActivatePriorPersisted cur, ActivateSyncPointPersist cur])"
       "m_current_sync_point s' = Some (next_sync_point s)"
       "earlier_sync_point (sync_points s' (next_sync_point s)) = Some cur"
       "m_append_scheduled (sync_points s' cur)"
       "to_append (flush_reqs s' f) = Some cur"
       "m_on_sync_point_persisted (sync_points s' cur) =
             m_on_sync_point_persisted (sync_points s cur) @ [FlushRequest f]"
      by (auto simp: aio_flush_flush_seen_fields)
    have "aio_flush_guarded s f cell detained =
        Inr (s', [Complete (ActivatePriorPersisted cur) 0,
                   Complete (ActivateSyncPointPersist cur) 0, ReleaseGuardedRequest cell])"
      using True cur s'(1)
      by (simp add: aio_flush_guarded_def Let_def aio_flush_flush_seen_fields)
    then show ?thesis using True s' by simp
  next
    case False
    show ?thesis
    proof (cases "earlier_sync_point (sync_points s cur)")
      case None
      then show ?thesis using False cur
        by (simp add: aio_flush_guarded_def Let_def aio_flush_flush_seen_fields)
    next
      case (Some e)
      from ok cur Some have "m_append_scheduled (sync_points s e)"
        by (auto simp: sync_chain_ok_def)
      then show ?thesis using False cur Some
        by (simp add: aio_flush_guarded_def Let_def aio_flush_flush_seen_fields)
    qed
  qed
qed

lemma flush_new_sync_point_user_req:
  assumes "flush_new_sync_point s (Some f) later = Inr (s', later')"
  shows "user_req (flush_reqs s' f) = user_req (flush_reqs s f)"
proof -
  have fr: "flush_reqs (fst (new_sync_point s later)) = flush_reqs s"
    by (rule new_sync_point_fields(6))
  obtain s2 l2 where n: "new_sync_point s later = (s2, l2)" by (cases "new_sync_point s later")
  then have fr2: "flush_reqs s2 = flush_reqs s" using fr by simp
  show ?thesis
    using assms n fr2
    by (auto simp: flush_new_sync_point_def Let_def
        split: option.splits bool.splits if_splits)
qed

lemma aio_flush_guarded_user_req:
  assumes "aio_flush_guarded s f cell detained = Inr (s', effs)"
  shows "user_req (flush_reqs s' f) = user_req (flush_reqs s f)"
proof -
  let ?s1 = "aio_flush_flush_seen s f detained"
  have u1: "user_req (flush_reqs ?s1 f) = user_req (flush_reqs s f)"
    by (simp add: aio_flush_flush_seen_def Let_def)
  show ?thesis
    using assms u1
    by (auto simp: aio_flush_guarded_def Let_def
        dest: flush_new_sync_point_user_req
        split: option.splits sum.splits prod.splits if_splits)
qed

text \<open>
  C2: a call of \<open>aio_flush\<close> on an initialized log of a writable image makes a flush
  request that carries the caller's completion and detains it in the block guard as a
  barrier. Once the guard grants the barrier (in a state \<open>t\<close> that still holds the
  request, with a sync-point chain of the shape the code asserts), exactly one of three
  things happens to that request. If the current sync point has writes,
  \<open>flush_new_sync_point\<close> is called with it: a new sync point becomes current, the old
  one is scheduled for append and the request joins its on-persisted list. Otherwise, if
  the current sync point has an earlier one, the request joins the on-persisted list of
  that earlier sync point. Otherwise the request is completed at once. In every case the
  last thing done is the release of the guard cell, in the first two the request is not
  completed before it, and the request still carries the caller's completion.
\<close>

theorem aio_flush_three_outcomes:
  assumes init: "m_initialized s"
    and snap: "snap_id (m_image_ctx s) = CEPH_NOSNAP K"
    and rw: "\<not> read_only (m_image_ctx s)"
    and req: "flush_reqs t (next_flush_req s) = new_C_FlushRequest on_finish"
    and ok: "sync_chain_ok t" and cur: "m_current_sync_point t = Some cur"
  shows "aio_flush K s on_finish =
       (s\<lparr>flush_reqs := (flush_reqs s)(next_flush_req s := new_C_FlushRequest on_finish),
          next_flush_req := next_flush_req s + 1\<rparr>,
        [DetainGuardedRequest (ExtentsSummary_block_extent [whole_volume_extent])
           (GuardedFlush (next_flush_req s)) True]) \<and>
     (\<exists>s' effs.
        aio_flush_guarded t (next_flush_req s) cell detained = Inr (s', effs) \<and>
        user_req (flush_reqs s' (next_flush_req s)) = on_finish \<and>
        last effs = ReleaseGuardedRequest cell \<and>
        (if m_writes (log_entries t (sp_log_entry (sync_points t cur))) \<noteq> 0
         then flush_new_sync_point (aio_flush_flush_seen t (next_flush_req s) detained)
                (Some (next_flush_req s)) [] =
                Inr (s', [ActivatePriorPersisted cur, ActivateSyncPointPersist cur]) \<and>
              m_current_sync_point s' = Some (next_sync_point t) \<and>
              earlier_sync_point (sync_points s' (next_sync_point t)) = Some cur \<and>
              m_append_scheduled (sync_points s' cur) \<and>
              to_append (flush_reqs s' (next_flush_req s)) = Some cur \<and>
              m_on_sync_point_persisted (sync_points s' cur) =
                m_on_sync_point_persisted (sync_points t cur) @
                [FlushRequest (next_flush_req s)] \<and>
              effs = [Complete (ActivatePriorPersisted cur) 0,
                      Complete (ActivateSyncPointPersist cur) 0, ReleaseGuardedRequest cell]
         else case earlier_sync_point (sync_points t cur) of
                Some e \<Rightarrow>
                  m_on_sync_point_persisted (sync_points s' e) =
                    m_on_sync_point_persisted (sync_points t e) @
                    [FlushRequest (next_flush_req s)] \<and>
                  m_current_sync_point s' = Some cur \<and>
                  next_sync_point s' = next_sync_point t \<and>
                  effs = [ReleaseGuardedRequest cell]
              | None \<Rightarrow>
                  sync_points s' = sync_points t \<and>
                  m_current_sync_point s' = Some cur \<and>
                  next_sync_point s' = next_sync_point t \<and>
                  effs = [Complete (FlushRequest (next_flush_req s)) 0,
                          ReleaseGuardedRequest cell]))"
proof -
  let ?f = "next_flush_req s"
  have entry: "aio_flush K s on_finish =
       (s\<lparr>flush_reqs := (flush_reqs s)(?f := new_C_FlushRequest on_finish),
          next_flush_req := ?f + 1\<rparr>,
        [DetainGuardedRequest (ExtentsSummary_block_extent [whole_volume_extent])
           (GuardedFlush ?f) True])"
    using init snap rw by (simp add: aio_flush_def make_flush_req_def Let_def)
  from aio_flush_guarded_outcomes [OF ok cur, of ?f cell detained]
  obtain s' effs where g: "aio_flush_guarded t ?f cell detained = Inr (s', effs)"
    and rest: "last effs = ReleaseGuardedRequest cell \<and>
        (if m_writes (log_entries t (sp_log_entry (sync_points t cur))) \<noteq> 0
         then flush_new_sync_point (aio_flush_flush_seen t ?f detained) (Some ?f) [] =
                Inr (s', [ActivatePriorPersisted cur, ActivateSyncPointPersist cur]) \<and>
              m_current_sync_point s' = Some (next_sync_point t) \<and>
              earlier_sync_point (sync_points s' (next_sync_point t)) = Some cur \<and>
              m_append_scheduled (sync_points s' cur) \<and>
              to_append (flush_reqs s' ?f) = Some cur \<and>
              m_on_sync_point_persisted (sync_points s' cur) =
                m_on_sync_point_persisted (sync_points t cur) @ [FlushRequest ?f] \<and>
              effs = [Complete (ActivatePriorPersisted cur) 0,
                      Complete (ActivateSyncPointPersist cur) 0, ReleaseGuardedRequest cell]
         else case earlier_sync_point (sync_points t cur) of
                Some e \<Rightarrow>
                  m_on_sync_point_persisted (sync_points s' e) =
                    m_on_sync_point_persisted (sync_points t e) @ [FlushRequest ?f] \<and>
                  m_current_sync_point s' = Some cur \<and>
                  next_sync_point s' = next_sync_point t \<and>
                  effs = [ReleaseGuardedRequest cell]
              | None \<Rightarrow>
                  sync_points s' = sync_points t \<and>
                  m_current_sync_point s' = Some cur \<and>
                  next_sync_point s' = next_sync_point t \<and>
                  effs = [Complete (FlushRequest ?f) 0, ReleaseGuardedRequest cell])"
    by blast
  have u: "user_req (flush_reqs s' ?f) = on_finish"
    using aio_flush_guarded_user_req [OF g] req by (simp add: new_C_FlushRequest_def)
  show ?thesis
    apply (rule conjI [OF entry])
    apply (rule exI [of _ s'], rule exI [of _ effs])
    using g u rest by simp
qed

lemma ex_sync_states_granted:
  "m_initialized ex_sync_state" "snap_id (m_image_ctx ex_sync_state) = CEPH_NOSNAP K0"
  "\<not> read_only (m_image_ctx ex_sync_state)" "next_flush_req ex_sync_state = 1"
  "m_initialized ex_sync_state_written"
  "snap_id (m_image_ctx ex_sync_state_written) = CEPH_NOSNAP K0"
  "\<not> read_only (m_image_ctx ex_sync_state_written)" "next_flush_req ex_sync_state_written = 1"
  "m_initialized ex_sync_state_two" "snap_id (m_image_ctx ex_sync_state_two) = CEPH_NOSNAP K0"
  "\<not> read_only (m_image_ctx ex_sync_state_two)" "next_flush_req ex_sync_state_two = 1"
  by (simp_all add: ex_sync_state_def ex_sync_state_written_def ex_sync_state_two_def
      rwl0_def K0_def)

lemma ex_sync_states_chain:
  "sync_chain_ok (fst (aio_flush K0 ex_sync_state (UserRequest 9)))"
  "m_current_sync_point (fst (aio_flush K0 ex_sync_state (UserRequest 9))) = Some 0"
  "flush_reqs (fst (aio_flush K0 ex_sync_state (UserRequest 9))) 1 =
     new_C_FlushRequest (UserRequest 9)"
  "sync_chain_ok (fst (aio_flush K0 ex_sync_state_written (UserRequest 9)))"
  "m_current_sync_point (fst (aio_flush K0 ex_sync_state_written (UserRequest 9))) = Some 0"
  "flush_reqs (fst (aio_flush K0 ex_sync_state_written (UserRequest 9))) 1 =
     new_C_FlushRequest (UserRequest 9)"
  "sync_chain_ok (fst (aio_flush K0 ex_sync_state_two (UserRequest 9)))"
  "m_current_sync_point (fst (aio_flush K0 ex_sync_state_two (UserRequest 9))) = Some 1"
  "flush_reqs (fst (aio_flush K0 ex_sync_state_two (UserRequest 9))) 1 =
     new_C_FlushRequest (UserRequest 9)"
  by (simp_all add: sync_chain_ok_def aio_flush_def make_flush_req_def Let_def
      ex_sync_state_def ex_sync_state_written_def ex_sync_state_two_def rwl0_def K0_def
      new_SyncPoint_def less_Suc_eq numeral_2_eq_2)

theorem aio_flush_three_outcomes_witness:
  "snd (aio_flush K0 ex_sync_state (UserRequest 9)) =
     [DetainGuardedRequest (ExtentsSummary_block_extent [whole_volume_extent])
        (GuardedFlush 1) True] \<and>
   (\<exists>s'. aio_flush_guarded (fst (aio_flush K0 ex_sync_state_written (UserRequest 9))) 1 5 False =
          Inr (s', [Complete (ActivatePriorPersisted 0) 0,
                    Complete (ActivateSyncPointPersist 0) 0, ReleaseGuardedRequest 5]) \<and>
         user_req (flush_reqs s' 1) = UserRequest 9 \<and>
         m_current_sync_point s' = Some 1 \<and>
         m_on_sync_point_persisted (sync_points s' 0) = [FlushRequest 1]) \<and>
   (\<exists>s'. aio_flush_guarded (fst (aio_flush K0 ex_sync_state_two (UserRequest 9))) 1 5 False =
          Inr (s', [ReleaseGuardedRequest 5]) \<and>
         user_req (flush_reqs s' 1) = UserRequest 9 \<and>
         m_on_sync_point_persisted (sync_points s' 0) = [FlushRequest 1]) \<and>
   (\<exists>s'. aio_flush_guarded (fst (aio_flush K0 ex_sync_state (UserRequest 9))) 1 5 False =
          Inr (s', [Complete (FlushRequest 1) 0, ReleaseGuardedRequest 5]) \<and>
         user_req (flush_reqs s' 1) = UserRequest 9)"
proof -
  let ?ta = "fst (aio_flush K0 ex_sync_state (UserRequest 9))"
  let ?tb = "fst (aio_flush K0 ex_sync_state_written (UserRequest 9))"
  let ?tc = "fst (aio_flush K0 ex_sync_state_two (UserRequest 9))"
  note g = ex_sync_states_granted and c = ex_sync_states_chain
  have a: "m_writes (log_entries ?ta (sp_log_entry (sync_points ?ta 0))) = 0"
    "earlier_sync_point (sync_points ?ta 0) = None"
    by (simp_all add: aio_flush_def make_flush_req_def Let_def ex_sync_state_def rwl0_def
        K0_def new_SyncPoint_def new_SyncPointLogEntry_def)
  have b: "m_writes (log_entries ?tb (sp_log_entry (sync_points ?tb 0))) = 3"
    "m_on_sync_point_persisted (sync_points ?tb 0) = []"
    "next_sync_point ?tb = 1"
    by (simp_all add: aio_flush_def make_flush_req_def Let_def ex_sync_state_written_def
        ex_sync_state_def rwl0_def K0_def new_SyncPoint_def new_SyncPointLogEntry_def)
  have d: "m_writes (log_entries ?tc (sp_log_entry (sync_points ?tc 1))) = 0"
    "earlier_sync_point (sync_points ?tc 1) = Some 0"
    "m_on_sync_point_persisted (sync_points ?tc 0) = []"
    by (simp_all add: aio_flush_def make_flush_req_def Let_def ex_sync_state_two_def
        rwl0_def K0_def new_SyncPoint_def new_SyncPointLogEntry_def)
  from aio_flush_three_outcomes [OF g(1,2,3), of ?ta "UserRequest 9" 0 5 False] g(4) c(1,2,3) a
  have 1: "snd (aio_flush K0 ex_sync_state (UserRequest 9)) =
     [DetainGuardedRequest (ExtentsSummary_block_extent [whole_volume_extent])
        (GuardedFlush 1) True]"
    and 4: "\<exists>s'. aio_flush_guarded ?ta 1 5 False =
          Inr (s', [Complete (FlushRequest 1) 0, ReleaseGuardedRequest 5]) \<and>
         user_req (flush_reqs s' 1) = UserRequest 9"
    by auto
  from aio_flush_three_outcomes [OF g(5,6,7), of ?tb "UserRequest 9" 0 5 False] g(8) c(4,5,6) b
  have 2: "\<exists>s'. aio_flush_guarded ?tb 1 5 False =
          Inr (s', [Complete (ActivatePriorPersisted 0) 0,
                    Complete (ActivateSyncPointPersist 0) 0, ReleaseGuardedRequest 5]) \<and>
         user_req (flush_reqs s' 1) = UserRequest 9 \<and>
         m_current_sync_point s' = Some 1 \<and>
         m_on_sync_point_persisted (sync_points s' 0) = [FlushRequest 1]"
    by auto
  from aio_flush_three_outcomes [OF g(9,10,11), of ?tc "UserRequest 9" 1 5 False] g(12) c(7,8,9) d
  have 3: "\<exists>s'. aio_flush_guarded ?tc 1 5 False =
          Inr (s', [ReleaseGuardedRequest 5]) \<and>
         user_req (flush_reqs s' 1) = UserRequest 9 \<and>
         m_on_sync_point_persisted (sync_points s' 0) = [FlushRequest 1]"
    by auto
  show ?thesis using 1 2 3 4 by blast
qed

section \<open>Theorems: dispatch of a write\<close>

lemma dispatch_aio_write_ops_result:
  assumes "spe < next_log_entry s" "length bufs = length es" "0 \<notin> set bufs"
  shows "\<exists>s'. dispatch_aio_write_ops pof spe s es bufs =
            Inr (s', [next_log_entry s ..< next_log_entry s + length es]) \<and>
     next_log_entry s' = next_log_entry s + length es \<and>
     m_last_op_sequence_num s' =
       (if pof then m_last_op_sequence_num s
        else m_last_op_sequence_num s + of_nat (length es)) \<and>
     (\<forall>i < length es.
        write_sequence_number (ram_entry (log_entries s' (next_log_entry s + i))) =
          (if pof then 0 else m_last_op_sequence_num s + of_nat (i + 1)) \<and>
        sequenced (ram_entry (log_entries s' (next_log_entry s + i))) = (\<not> pof) \<and>
        sync_gen_number (ram_entry (log_entries s' (next_log_entry s + i))) =
          m_current_sync_gen s) \<and>
     (\<forall>q < next_log_entry s. q \<noteq> spe \<longrightarrow> log_entries s' q = log_entries s q) \<and>
     m_current_sync_gen s' = m_current_sync_gen s"
  using assms
proof (induction es arbitrary: s bufs)
  case Nil
  then show ?case by simp
next
  case (Cons x es)
  obtain off len where x: "x = (off, len)" by (cases x)
  from Cons.prems obtain buf bufs' where bb: "bufs = buf # bufs'" by (cases bufs) auto
  let ?le = "next_log_entry s"
  define s4 where "s4 =
     (let le = next_log_entry s;
          s1 = s\<lparr>next_log_entry := le + 1,
                 log_entries := (log_entries s)(le := new_WriteLogEntry (Some spe) off len)\<rparr>;
          se = log_entries s1 spe;
          s2 = s1\<lparr>log_entries := (log_entries s1)
                 (spe := se\<lparr>m_writes := m_writes se + 1, m_bytes := m_bytes se + unat len\<rparr>)\<rparr>;
          we = log_entries s2 le;
          ram1 = (ram_entry we)\<lparr>has_data := True, write_data := buf\<rparr>;
          ram2 = ram1\<lparr>sync_gen_number := m_current_sync_gen s2\<rparr>;
          s3 = (if pof then s2
                     else s2\<lparr>m_last_op_sequence_num := m_last_op_sequence_num s2 + 1\<rparr>);
          ram3 = (if pof then ram2\<lparr>write_sequence_number := 0\<rparr>
                       else ram2\<lparr>write_sequence_number := m_last_op_sequence_num s3,
                                 sequenced := True\<rparr>);
          ram4 = ram3\<lparr>sync_point := False, unmap := False\<rparr>
       in s3\<lparr>log_entries := (log_entries s3)(le := we\<lparr>ram_entry := ram4\<rparr>)\<rparr>)"
  have buf: "buf \<noteq> 0" and bufs: "0 \<notin> set bufs'" "length bufs' = length es"
    using Cons.prems bb by auto
  have spe: "spe < ?le" using Cons.prems by simp
  have unf: "dispatch_aio_write_ops pof spe s ((off, len) # es) (buf # bufs') =
      (case dispatch_aio_write_ops pof spe s4 es bufs' of
                Inl e \<Rightarrow> Inl e
              | Inr (s5, les) \<Rightarrow> Inr (s5, ?le # les))"
    using buf by (simp add: s4_def Let_def)
  have s4: "next_log_entry s4 = ?le + 1"
    "m_last_op_sequence_num s4 =
       (if pof then m_last_op_sequence_num s else m_last_op_sequence_num s + 1)"
    "m_current_sync_gen s4 = m_current_sync_gen s"
    "write_sequence_number (ram_entry (log_entries s4 ?le)) =
          (if pof then 0 else m_last_op_sequence_num s + 1)"
    "sequenced (ram_entry (log_entries s4 ?le)) = (\<not> pof)"
    "sync_gen_number (ram_entry (log_entries s4 ?le)) = m_current_sync_gen s"
    "\<And>q. q < ?le \<Longrightarrow> q \<noteq> spe \<Longrightarrow> log_entries s4 q = log_entries s q"
    using spe
    by (auto simp: s4_def Let_def new_WriteLogEntry_def new_WriteLogPmemEntry_def)
  have "spe < next_log_entry s4" using spe s4(1) by simp
  from Cons.IH [OF this bufs(2) bufs(1)]
  obtain s' where s': "dispatch_aio_write_ops pof spe s4 es bufs' =
            Inr (s', [next_log_entry s4 ..< next_log_entry s4 + length es])"
     "next_log_entry s' = next_log_entry s4 + length es"
     "m_last_op_sequence_num s' =
       (if pof then m_last_op_sequence_num s4
        else m_last_op_sequence_num s4 + of_nat (length es))"
     "\<And>i. i < length es \<Longrightarrow>
        write_sequence_number (ram_entry (log_entries s' (next_log_entry s4 + i))) =
          (if pof then 0 else m_last_op_sequence_num s4 + of_nat (i + 1)) \<and>
        sequenced (ram_entry (log_entries s' (next_log_entry s4 + i))) = (\<not> pof) \<and>
        sync_gen_number (ram_entry (log_entries s' (next_log_entry s4 + i))) =
          m_current_sync_gen s4"
     "\<And>q. q < next_log_entry s4 \<Longrightarrow> q \<noteq> spe \<Longrightarrow> log_entries s' q = log_entries s4 q"
     "m_current_sync_gen s' = m_current_sync_gen s4"
    by blast
  have r: "dispatch_aio_write_ops pof spe s ((off, len) # es) (buf # bufs') =
       Inr (s', [?le ..< ?le + length ((off, len) # es)])"
    using unf s'(1) s4(1) by (simp add: upt_rec)
  have e: "\<forall>i < length ((off, len) # es).
        write_sequence_number (ram_entry (log_entries s' (?le + i))) =
          (if pof then 0 else m_last_op_sequence_num s + of_nat (i + 1)) \<and>
        sequenced (ram_entry (log_entries s' (?le + i))) = (\<not> pof) \<and>
        sync_gen_number (ram_entry (log_entries s' (?le + i))) = m_current_sync_gen s"
  proof (intro allI impI)
    fix i assume i: "i < length ((off, len) # es)"
    show "write_sequence_number (ram_entry (log_entries s' (?le + i))) =
          (if pof then 0 else m_last_op_sequence_num s + of_nat (i + 1)) \<and>
        sequenced (ram_entry (log_entries s' (?le + i))) = (\<not> pof) \<and>
        sync_gen_number (ram_entry (log_entries s' (?le + i))) = m_current_sync_gen s"
    proof (cases i)
      case 0
      have "log_entries s' ?le = log_entries s4 ?le"
        using s'(5) [of ?le] s4(1) spe by simp
      then show ?thesis using 0 s4 by simp
    next
      case (Suc j)
      with i have j: "j < length es" by simp
      from s'(4) [OF j] show ?thesis using Suc s4(1,2,3) by (simp add: add.assoc)
    qed
  qed
  have o: "\<forall>q < ?le. q \<noteq> spe \<longrightarrow> log_entries s' q = log_entries s q"
    using s'(5) s4(1,7) by simp
  show ?case
    unfolding x bb
    apply (rule exI [of _ s'])
    using r e o s'(2,3,6) s4(1,2,3) by (simp add: add.assoc)
qed

lemma unat_plus_of_nat:
  fixes a :: u64
  assumes "unat a + n < 2 ^ 64"
  shows "unat (a + of_nat n) = unat a + n"
proof -
  have n: "n < 2 ^ 64" using assms by simp
  then have "unat (of_nat n :: u64) = n" by (simp add: unat_of_nat)
  then show ?thesis using assms by (simp add: unat_word_ariths)
qed

text \<open>
  C7: a write dispatched in persist-on-flush mode gets log entries with
  \<open>write_sequence_number\<close> 0 and the sequenced flag unset; a write dispatched in
  persist-on-write mode gets, extent by extent, the next values of the last-op sequence
  number (strictly increasing: the \<open>i\<close>-th entry carries the old counter plus \<open>i + 1\<close>, and
  the counter ends at the last one given out) with the sequenced flag set. The dispatch
  is taken on a log with a current sync point, with resources allocated (one non-null
  buffer for each extent) and a sequence counter that does not wrap around.
\<close>

theorem dispatch_aio_write_sequence_numbers:
  assumes ok: "sync_chain_ok s" and cur: "m_current_sync_point s = Some cur"
    and sple: "sp_log_entry (sync_points s cur) < next_log_entry s"
    and alloc: "allocated"
    and bufs: "length bufs = length extents" "0 \<notin> set bufs"
    and nowrap: "unat (m_last_op_sequence_num s) + length extents < 2 ^ 64"
  shows "\<exists>s' les on_exit.
     dispatch_aio_write_locked K s extents bufs allocated =
       Inr (s', les, m_persist_on_flush s, on_exit) \<and>
     length les = length extents \<and>
     (if m_persist_on_flush s
      then (\<forall>i < length les.
              write_sequence_number (ram_entry (log_entries s' (les ! i))) = 0 \<and>
              \<not> sequenced (ram_entry (log_entries s' (les ! i)))) \<and>
           m_last_op_sequence_num s' = m_last_op_sequence_num s
      else (\<forall>i < length les.
              unat (write_sequence_number (ram_entry (log_entries s' (les ! i)))) =
                unat (m_last_op_sequence_num s) + i + 1 \<and>
              sequenced (ram_entry (log_entries s' (les ! i)))) \<and>
           unat (m_last_op_sequence_num s') = unat (m_last_op_sequence_num s) + length les)"
proof -
  let ?cse = "log_entries s (sp_log_entry (sync_points s cur))"
  let ?c = "(\<not> m_persist_on_flush s \<and> m_writes_completed ?cse \<noteq> 0) \<or>
                   m_writes ?cse > MAX_WRITES_PER_SYNC_POINT K \<or>
                   m_bytes ?cse > MAX_BYTES_PER_SYNC_POINT K"
  have "\<exists>s1 on_exit sp.
     (if ?c then flush_new_sync_point s None [] else Inr (s, [])) = Inr (s1, on_exit) \<and>
     m_current_sync_point s1 = Some sp \<and>
     sp_log_entry (sync_points s1 sp) < next_log_entry s1 \<and>
     m_last_op_sequence_num s1 = m_last_op_sequence_num s \<and>
     m_persist_on_flush s1 = m_persist_on_flush s"
  proof (cases ?c)
    case True
    from flush_new_sync_point_result [OF ok cur, of "next_flush_req s" None "[]"]
    show ?thesis using True by auto
  next
    case False
    then show ?thesis using cur sple by auto
  qed
  then obtain s1 on_exit sp where s1:
     "(if ?c then flush_new_sync_point s None [] else Inr (s, [])) = Inr (s1, on_exit)"
     "m_current_sync_point s1 = Some sp"
     "sp_log_entry (sync_points s1 sp) < next_log_entry s1"
     "m_last_op_sequence_num s1 = m_last_op_sequence_num s"
     "m_persist_on_flush s1 = m_persist_on_flush s"
    by blast
  let ?pof = "m_persist_on_flush s"
  let ?ssp = "sync_points s1 sp"
  let ?s2 = "s1\<lparr>sync_points := (sync_points s1)
                 (sp := ?ssp\<lparr>m_prior_log_entries_persisted_subs :=
                             m_prior_log_entries_persisted_subs ?ssp + 1\<rparr>)\<rparr>"
  let ?spe = "sp_log_entry (sync_points ?s2 sp)"
  have spe: "?spe < next_log_entry ?s2" using s1(3) by simp
  from dispatch_aio_write_ops_result [OF spe bufs, of ?pof]
  obtain s' where s':
    "dispatch_aio_write_ops ?pof ?spe ?s2 extents bufs =
       Inr (s', [next_log_entry s1 ..< next_log_entry s1 + length extents])"
    "m_last_op_sequence_num s' =
       (if ?pof then m_last_op_sequence_num s
        else m_last_op_sequence_num s + of_nat (length extents))"
    "\<And>i. i < length extents \<Longrightarrow>
        write_sequence_number (ram_entry (log_entries s' (next_log_entry s1 + i))) =
          (if ?pof then 0 else m_last_op_sequence_num s + of_nat (i + 1)) \<and>
        sequenced (ram_entry (log_entries s' (next_log_entry s1 + i))) = (\<not> ?pof)"
    using s1(4) by auto
  let ?les = "[next_log_entry s1 ..< next_log_entry s1 + length extents]"
  have res: "dispatch_aio_write_locked K s extents bufs allocated =
       Inr (s', ?les, ?pof, on_exit)"
    unfolding dispatch_aio_write_locked_def
    using cur s1(1,2,5) s'(1) alloc by (simp add: Let_def)
  have seq: "\<not> ?pof \<Longrightarrow> i < length extents \<Longrightarrow>
       unat (write_sequence_number (ram_entry (log_entries s' (?les ! i)))) =
         unat (m_last_op_sequence_num s) + i + 1" for i
  proof -
    assume p: "\<not> ?pof" and i: "i < length extents"
    have "unat (m_last_op_sequence_num s) + (i + 1) < 2 ^ 64" using nowrap i by simp
    from unat_plus_of_nat [OF this] s'(3) [OF i] p i show ?thesis by simp
  qed
  have last: "\<not> ?pof \<Longrightarrow>
       unat (m_last_op_sequence_num s') = unat (m_last_op_sequence_num s) + length extents"
    using s'(2) unat_plus_of_nat [OF nowrap] by simp
  show ?thesis
    apply (rule exI [of _ s'], rule exI [of _ ?les], rule exI [of _ on_exit])
    using res s'(2,3) seq last by simp
qed

theorem dispatch_aio_write_sequence_numbers_witness:
  "(\<exists>s' les on_exit.
      dispatch_aio_write_locked K0 ex_sync_state [(0, 4096), (8192, 512)] [11, 12] True =
        Inr (s', les, False, on_exit) \<and>
      length les = 2 \<and>
      unat (write_sequence_number (ram_entry (log_entries s' (les ! 0)))) = 1 \<and>
      unat (write_sequence_number (ram_entry (log_entries s' (les ! 1)))) = 2 \<and>
      sequenced (ram_entry (log_entries s' (les ! 0))) \<and>
      sequenced (ram_entry (log_entries s' (les ! 1))) \<and>
      unat (m_last_op_sequence_num s') = 2) \<and>
   (\<exists>s' les on_exit.
      dispatch_aio_write_locked K0 (ex_sync_state\<lparr>m_persist_on_flush := True\<rparr>)
          [(0, 4096), (8192, 512)] [11, 12] True =
        Inr (s', les, True, on_exit) \<and>
      length les = 2 \<and>
      write_sequence_number (ram_entry (log_entries s' (les ! 0))) = 0 \<and>
      write_sequence_number (ram_entry (log_entries s' (les ! 1))) = 0 \<and>
      \<not> sequenced (ram_entry (log_entries s' (les ! 0))) \<and>
      \<not> sequenced (ram_entry (log_entries s' (les ! 1))))"
proof -
  let ?t = "ex_sync_state\<lparr>m_persist_on_flush := True\<rparr>"
  have h: "sync_chain_ok ex_sync_state" "m_current_sync_point ex_sync_state = Some 0"
    "sp_log_entry (sync_points ex_sync_state 0) < next_log_entry ex_sync_state"
    "\<not> m_persist_on_flush ex_sync_state"
    "unat (m_last_op_sequence_num ex_sync_state) = 0"
    by (simp_all add: sync_chain_ok_def ex_sync_state_def rwl0_def new_SyncPoint_def)
  have ht: "sync_chain_ok ?t" "m_current_sync_point ?t = Some 0"
    "sp_log_entry (sync_points ?t 0) < next_log_entry ?t"
    "m_persist_on_flush ?t"
    "unat (m_last_op_sequence_num ?t) = 0"
    by (simp_all add: sync_chain_ok_def ex_sync_state_def rwl0_def new_SyncPoint_def)
  have l: "length [11, 12 :: nat] = length [(0, 4096), (8192, 512 :: u64) :: u64 \<times> u64]"
    "0 \<notin> set [11, 12 :: nat]" by simp_all
  have n: "unat (m_last_op_sequence_num ex_sync_state) +
        length [(0, 4096), (8192, 512 :: u64) :: u64 \<times> u64] < 2 ^ 64"
    "unat (m_last_op_sequence_num ?t) +
        length [(0, 4096), (8192, 512 :: u64) :: u64 \<times> u64] < 2 ^ 64"
    using h(5) ht(5) by simp_all
  from dispatch_aio_write_sequence_numbers [OF h(1,2,3) TrueI l n(1), of K0]
  have a: "\<exists>s' les on_exit.
      dispatch_aio_write_locked K0 ex_sync_state [(0, 4096), (8192, 512)] [11, 12] True =
        Inr (s', les, False, on_exit) \<and>
      length les = 2 \<and>
      unat (write_sequence_number (ram_entry (log_entries s' (les ! 0)))) = 1 \<and>
      unat (write_sequence_number (ram_entry (log_entries s' (les ! 1)))) = 2 \<and>
      sequenced (ram_entry (log_entries s' (les ! 0))) \<and>
      sequenced (ram_entry (log_entries s' (les ! 1))) \<and>
      unat (m_last_op_sequence_num s') = 2"
    using h(4,5) by (fastforce simp: numeral_2_eq_2)
  from dispatch_aio_write_sequence_numbers [OF ht(1,2,3) TrueI l n(2), of K0]
  have b: "\<exists>s' les on_exit.
      dispatch_aio_write_locked K0 ?t [(0, 4096), (8192, 512)] [11, 12] True =
        Inr (s', les, True, on_exit) \<and>
      length les = 2 \<and>
      write_sequence_number (ram_entry (log_entries s' (les ! 0))) = 0 \<and>
      write_sequence_number (ram_entry (log_entries s' (les ! 1))) = 0 \<and>
      \<not> sequenced (ram_entry (log_entries s' (les ! 0))) \<and>
      \<not> sequenced (ram_entry (log_entries s' (les ! 1)))"
    using ht(4) by (fastforce simp: numeral_2_eq_2)
  show ?thesis using a b by blast
qed

section \<open>Theorems: writesame\<close>

lemma unat_of_nat_u64: "m < 2 ^ 64 \<Longrightarrow> unat (of_nat m :: u64) = m"
  by (simp add: unat_of_nat)

lemma writesame_fill_multiple:
  "k * length pat < 2 ^ 64 \<Longrightarrow>
   writesame_fill pat (of_nat (k * length pat)) acc = Some (acc @ concat (replicate k pat))"
proof (induction k arbitrary: acc)
  case 0
  then show ?case by (simp add: writesame_fill.simps)
next
  case (Suc k)
  show ?case
  proof (cases "length pat = 0")
    case True
    then show ?thesis by (simp add: writesame_fill.simps)
  next
    case False
    have lt: "Suc k * length pat < 2 ^ 64" using Suc.prems .
    have pos: "0 < Suc k * length pat" using False by simp
    have "unat (of_nat (Suc k * length pat) :: u64) = Suc k * length pat"
      using lt by (rule unat_of_nat_u64)
    then have nz: "(of_nat (Suc k * length pat) :: u64) \<noteq> 0"
      using pos by (metis less_numeral_extra(3) unat_0)
    have sub: "(of_nat (Suc k * length pat) :: u64) - of_nat (length pat) =
                 of_nat (k * length pat)"
      by simp
    have k: "k * length pat < 2 ^ 64" using lt by simp
    show ?thesis
      apply (subst writesame_fill.simps)
      using nz sub Suc.IH [OF k, of "acc @ pat"] by simp
  qed
qed

text \<open>
  C9, as stated for every writesame operation, fails: on a read-only image the request is
  completed with \<open>-EROFS\<close> and nothing is forwarded or written.
\<close>

theorem aio_writesame_read_only_counterexample:
  "aio_writesame K0 ex_read_only_state 0 4 [1, 2] [1, 2] 0 (UserRequest 1) =
     Inr (ex_read_only_state, [Complete (UserRequest 1) (- 30)])"
  by (simp add: aio_writesame_def ex_read_only_state_def ex_sync_state_def rwl0_def K0_def
      EROFS_def)

lemma length_concat_replicate: "length (concat (replicate k xs)) = k * length xs"
  by (induction k) simp_all

text \<open>
  C9 (amended): a writesame on an initialized log of a writable image (no snapshot, not
  read-only), whose length is a whole multiple of the pattern the downstream call leaves in
  the buffer, is both forwarded to the downstream cache and re-submitted through the local
  write path over the same range, with the pattern replicated to the full length and with
  the same completion: the data is written twice. On a snapshot or a read-only image the
  request is completed with \<open>-EROFS\<close>, the log is unchanged, and nothing is forwarded
  or written.
\<close>

theorem aio_writesame_double_write:
  assumes init: "m_initialized s"
  shows "if snap_id (m_image_ctx s) \<noteq> CEPH_NOSNAP K \<or> read_only (m_image_ctx s)
     then aio_writesame K s off len b b_after flags on_finish =
            Inr (s, [Complete on_finish (- EROFS)])
     else unat len = k * length b_after \<longrightarrow>
       (\<exists>s' effs.
          aio_write K s [(off, len)] (concat (replicate k b_after)) flags on_finish =
            Inr (s', effs) \<and>
          effs = [DetainGuardedRequest (ExtentsSummary_block_extent [(off, len)])
                    (GuardedWrite (next_write_req s)) False] \<and>
          write_reqs s' (next_write_req s) =
            new_C_WriteRequest [(off, len)] (concat (replicate k b_after)) flags on_finish \<and>
          aio_writesame K s off len b b_after flags on_finish =
            Inr (s', LowerAioWritesame off len b flags on_finish # effs))"
proof (cases "snap_id (m_image_ctx s) \<noteq> CEPH_NOSNAP K \<or> read_only (m_image_ctx s)")
  case True
  then show ?thesis using init by (auto simp: aio_writesame_def)
next
  case False
  then have snap: "snap_id (m_image_ctx s) = CEPH_NOSNAP K"
    and rw: "\<not> read_only (m_image_ctx s)" by simp_all
  have "\<exists>s' effs.
          aio_write K s [(off, len)] (concat (replicate k b_after)) flags on_finish =
            Inr (s', effs) \<and>
          effs = [DetainGuardedRequest (ExtentsSummary_block_extent [(off, len)])
                    (GuardedWrite (next_write_req s)) False] \<and>
          write_reqs s' (next_write_req s) =
            new_C_WriteRequest [(off, len)] (concat (replicate k b_after)) flags on_finish \<and>
          aio_writesame K s off len b b_after flags on_finish =
            Inr (s', LowerAioWritesame off len b flags on_finish # effs)"
    if mult: "unat len = k * length b_after"
  proof -
    have lt: "k * length b_after < 2 ^ 64"
    proof -
      have "unat len < 2 ^ 64" using unsigned_less [of len] by simp
      then show ?thesis using mult by simp
    qed
    have len: "len = of_nat (k * length b_after)"
      using mult by (metis of_nat_unat ucast_id)
    have fill: "writesame_fill b_after len [] = Some (concat (replicate k b_after))"
      using writesame_fill_multiple [OF lt, of "[]"] len by simp
    have l2: "len = of_nat (length (concat (replicate k b_after)))"
      using len by (simp add: length_concat_replicate)
    show ?thesis
      unfolding aio_writesame_def aio_write_def
      using init snap rw fill l2 by (simp add: Let_def)
  qed
  then show ?thesis using False by simp
qed

theorem aio_writesame_double_write_witness:
  "(\<exists>s'. aio_writesame K0 ex_sync_state 0 4 [1, 2] [1, 2] 0 (UserRequest 1) =
      Inr (s', [LowerAioWritesame 0 4 [1, 2] 0 (UserRequest 1),
                DetainGuardedRequest (ExtentsSummary_block_extent [(0, 4)])
                  (GuardedWrite 0) False]) \<and>
      bl (write_reqs s' 0) = [1, 2, 1, 2] \<and>
      user_req (write_reqs s' 0) = UserRequest 1) \<and>
   aio_writesame K0 ex_snapshot_state 0 4 [1, 2] [1, 2] 0 (UserRequest 1) =
      Inr (ex_snapshot_state, [Complete (UserRequest 1) (- 30)]) \<and>
   aio_writesame K0 (ex_sync_state\<lparr>m_image_ctx := \<lparr>snap_id = - 2, read_only = True\<rparr>\<rparr>)
      0 4 [1, 2] [1, 2] 0 (UserRequest 1) =
      Inr (ex_sync_state\<lparr>m_image_ctx := \<lparr>snap_id = - 2, read_only = True\<rparr>\<rparr>,
           [Complete (UserRequest 1) (- 30)])"
proof -
  let ?ro = "ex_sync_state\<lparr>m_image_ctx := \<lparr>snap_id = - 2, read_only = True\<rparr>\<rparr>"
  have h: "m_initialized ex_sync_state"
    "snap_id (m_image_ctx ex_sync_state) = CEPH_NOSNAP K0"
    "\<not> read_only (m_image_ctx ex_sync_state)"
    "next_write_req ex_sync_state = 0"
    by (simp_all add: ex_sync_state_def rwl0_def K0_def)
  have hs: "m_initialized ex_snapshot_state"
    "snap_id (m_image_ctx ex_snapshot_state) \<noteq> CEPH_NOSNAP K0"
    by (simp_all add: ex_snapshot_state_def ex_sync_state_def rwl0_def K0_def)
  have hr: "m_initialized ?ro" "read_only (m_image_ctx ?ro)"
    by (simp_all add: ex_sync_state_def rwl0_def)
  have m: "unat (4 :: u64) = 2 * length [1, 2 :: 8 word]" by simp
  from aio_writesame_double_write [OF h(1), of K0 0 4 "[1, 2]" "[1, 2]" 0 "UserRequest 1" 2]
  have 1: "\<exists>s'. aio_writesame K0 ex_sync_state 0 4 [1, 2] [1, 2] 0 (UserRequest 1) =
      Inr (s', [LowerAioWritesame 0 4 [1, 2] 0 (UserRequest 1),
                DetainGuardedRequest (ExtentsSummary_block_extent [(0, 4)])
                  (GuardedWrite 0) False]) \<and>
      bl (write_reqs s' 0) = [1, 2, 1, 2] \<and>
      user_req (write_reqs s' 0) = UserRequest 1"
    using h(2,3,4) m by (auto simp: new_C_WriteRequest_def numeral_2_eq_2)
  from aio_writesame_double_write [OF hs(1), of K0 0 4 "[1, 2]" "[1, 2]" 0 "UserRequest 1" 2]
  have 2: "aio_writesame K0 ex_snapshot_state 0 4 [1, 2] [1, 2] 0 (UserRequest 1) =
      Inr (ex_snapshot_state, [Complete (UserRequest 1) (- 30)])"
    using hs(2) by (simp add: EROFS_def)
  from aio_writesame_double_write [OF hr(1), of K0 0 4 "[1, 2]" "[1, 2]" 0 "UserRequest 1" 2]
  have 3: "aio_writesame K0 ?ro 0 4 [1, 2] [1, 2] 0 (UserRequest 1) =
      Inr (?ro, [Complete (UserRequest 1) (- 30)])"
    using hr(2) by (simp add: EROFS_def)
  show ?thesis using 1 2 3 by blast
qed

section \<open>Theorems: the write-log map\<close>

subsection \<open>The set operations on an ordered list\<close>










subsection \<open>Extents\<close>







lemma bump_refs_zero [simp]: "bump_refs (\<lambda>q. 0) h = h"
  by (rule ext) (simp add: bump_refs_def)

lemma bump_refs_bump:
  "bump_refs d2 (bump_refs d1 h) = bump_refs (\<lambda>q. d1 q + d2 q) h"
  by (rule ext) (simp add: bump_refs_def)


subsection \<open>One overlapping entry\<close>



subsection \<open>The loop over the overlapping entries\<close>



subsection \<open>The entries found for an extent\<close>


subsection \<open>What the resolution leaves\<close>










subsection \<open>The insert\<close>











section \<open>Theorems: retirement\<close>

lemma remove_map_entry_locked_frame:
  assumes "remove_map_entry_locked s map_entry = Inr s'"
  shows "\<exists>M' d. s' = s\<lparr>m_block_to_log_entry_map := M',
                       log_entries := bump_refs d (log_entries s)\<rparr>"
proof -
  from assms obtain i p where
    s': "s' = s\<lparr>m_block_to_log_entry_map := set_erase (m_block_to_log_entry_map s) i,
               log_entries := (log_entries s)
                 (p := (log_entries s p)\<lparr>referring_map_entries :=
                          referring_map_entries (log_entries s p) - 1\<rparr>)\<rparr>"
    by (auto simp: remove_map_entry_locked_def Let_def split: option.splits)
  have "(log_entries s)
          (p := (log_entries s p)\<lparr>referring_map_entries :=
                   referring_map_entries (log_entries s p) - 1\<rparr>) =
        bump_refs (\<lambda>q. if q = p then - 1 else 0) (log_entries s)"
    by (rule ext) (simp add: bump_refs_def)
  then show ?thesis using s' by metis
qed

lemma frame_trans:
  assumes "s1 = s\<lparr>m_block_to_log_entry_map := M1, log_entries := bump_refs d1 (log_entries s)\<rparr>"
    and "s2 = s1\<lparr>m_block_to_log_entry_map := M2, log_entries := bump_refs d2 (log_entries s1)\<rparr>"
  shows "s2 = s\<lparr>m_block_to_log_entry_map := M2,
                 log_entries := bump_refs (\<lambda>q. d1 q + d2 q) (log_entries s)\<rparr>"
  using assms by (simp add: bump_refs_bump)

lemma remove_log_entry_hits_frame:
  "remove_log_entry_hits s p hits = Inr s' \<Longrightarrow>
   \<exists>M' d. s' = s\<lparr>m_block_to_log_entry_map := M',
                  log_entries := bump_refs d (log_entries s)\<rparr>"
proof (induction hits arbitrary: s)
  case Nil
  then have "s' = s\<lparr>m_block_to_log_entry_map := m_block_to_log_entry_map s,
                     log_entries := bump_refs (\<lambda>q. 0) (log_entries s)\<rparr>"
    by simp
  then show ?case by blast
next
  case (Cons h hits)
  show ?case
  proof (cases "log_entry h = Some p")
    case True
    with Cons.prems obtain s1 where
      r: "remove_map_entry_locked s h = Inr s1" "remove_log_entry_hits s1 p hits = Inr s'"
      by (auto split: sum.splits)
    from remove_map_entry_locked_frame [OF r(1)] obtain M1 d1 where
      f1: "s1 = s\<lparr>m_block_to_log_entry_map := M1, log_entries := bump_refs d1 (log_entries s)\<rparr>"
      by blast
    from Cons.IH [OF r(2)] obtain M2 d2 where
      f2: "s' = s1\<lparr>m_block_to_log_entry_map := M2, log_entries := bump_refs d2 (log_entries s1)\<rparr>"
      by blast
    from frame_trans [OF f1 f2] show ?thesis by blast
  next
    case False
    with Cons.prems have "remove_log_entry_hits s p hits = Inr s'" by simp
    from Cons.IH [OF this] show ?thesis .
  qed
qed

lemma remove_log_entry_locked_frame:
  assumes "remove_log_entry_locked s p = Inr s'"
  shows "\<exists>M' d. s' = s\<lparr>m_block_to_log_entry_map := M',
                       log_entries := bump_refs d (log_entries s)\<rparr>"
proof (cases "is_write (ram_entry (log_entries s p))")
  case True
  then show ?thesis
    using assms remove_log_entry_hits_frame by (simp add: remove_log_entry_locked_def)
next
  case False
  then have "s' = s\<lparr>m_block_to_log_entry_map := m_block_to_log_entry_map s,
                     log_entries := bump_refs (\<lambda>q. 0) (log_entries s)\<rparr>"
    using assms by (simp add: remove_log_entry_locked_def)
  then show ?thesis by blast
qed

lemma bump_refs_fields [simp]:
  "completed (bump_refs d h q) = completed (h q)"
  "flushed (bump_refs d h q) = flushed (h q)"
  "flushing (bump_refs d h q) = flushing (h q)"
  "reader_count (bump_refs d h q) = reader_count (h q)"
  "ram_entry (bump_refs d h q) = ram_entry (h q)"
  "log_entry_index (bump_refs d h q) = log_entry_index (h q)"
  "sync_point_entry (bump_refs d h q) = sync_point_entry (h q)"
  "can_retire_entry (bump_refs d h q) = can_retire_entry (h q)"
  by (simp_all add: bump_refs_def can_retire_entry_def)

text \<open>One round of the loop.\<close>

lemma retire_entries_scan_step:
  assumes r: "retire_entries_scan s (entry # rest) fv acc k = Inr (s', fv', R)"
    and go: "length acc < k \<and> can_retire_entry (log_entries s entry)"
  shows "\<exists>M2 d2.
      retire_entries_scan
        (s\<lparr>m_log_entries := rest, m_block_to_log_entry_map := M2,
           log_entries := bump_refs d2 (log_entries s)\<rparr>)
        rest ((fv + 1) mod m_total_log_entries s) (acc @ [entry]) k = Inr (s', fv', R) \<and>
      log_entry_index (log_entries s entry) = fv \<and>
      completed (log_entries s entry) \<and>
      (is_write (ram_entry (log_entries s entry)) \<longrightarrow>
         flushed (log_entries s entry) \<and> reader_count (log_entries s entry) = 0 \<and>
         referring_map_entries (bump_refs d2 (log_entries s) entry) = 0)"
proof (cases "is_write (ram_entry (log_entries s entry))")
  case True
  let ?s1 = "s\<lparr>m_log_entries := rest\<rparr>"
  from r go True obtain s2 where
    rm: "remove_log_entry_locked ?s1 entry = Inr s2"
    by (auto simp: Let_def split: if_splits sum.splits)
  from remove_log_entry_locked_frame [OF rm] obtain M2 d2 where
    f: "s2 = ?s1\<lparr>m_block_to_log_entry_map := M2, log_entries := bump_refs d2 (log_entries ?s1)\<rparr>"
    by blast
  then have f': "s2 = s\<lparr>m_log_entries := rest, m_block_to_log_entry_map := M2,
                        log_entries := bump_refs d2 (log_entries s)\<rparr>"
    by simp
  have "retire_entries_scan s2 rest ((fv + 1) mod m_total_log_entries s) (acc @ [entry]) k =
          Inr (s', fv', R) \<and>
        log_entry_index (log_entries s entry) = fv \<and>
        completed (log_entries s entry) \<and>
        flushed (log_entries s2 entry) \<and> reader_count (log_entries s2 entry) = 0 \<and>
        referring_map_entries (log_entries s2 entry) = 0"
    using r go True rm by (auto simp: Let_def split: if_splits)
  then show ?thesis unfolding f' using True by (intro exI [of _ M2] exI [of _ d2]) simp
next
  case False
  have z: "s\<lparr>m_log_entries := rest\<rparr> =
           s\<lparr>m_log_entries := rest, m_block_to_log_entry_map := m_block_to_log_entry_map s,
             log_entries := bump_refs (\<lambda>q. 0) (log_entries s)\<rparr>"
    by simp
  have "retire_entries_scan (s\<lparr>m_log_entries := rest\<rparr>) rest
          ((fv + 1) mod m_total_log_entries s) (acc @ [entry]) k = Inr (s', fv', R) \<and>
        log_entry_index (log_entries s entry) = fv \<and>
        completed (log_entries s entry)"
    using r go False by (auto simp: Let_def split: if_splits)
  then show ?thesis
    using False
    by (intro exI [of _ "m_block_to_log_entry_map s"] exI [of _ "\<lambda>q. 0"]) simp
qed

lemma funpow_Suc_shift: "(f ^^ j) (f x) = (f ^^ Suc j) x"
  by (simp add: funpow_swap1)

lemma retire_entries_scan_result:
  assumes "retire_entries_scan s es fv acc k = Inr (s', fv', R)"
    and "m_log_entries s = es"
  shows "\<exists>j M' d.
     j \<le> length es \<and> (j = 0 \<or> length acc + j \<le> k) \<and> (j = 0 \<longrightarrow> s' = s) \<and>
     (k \<le> length acc + j \<or> j = length es \<or> \<not> can_retire_entry (log_entries s (es ! j))) \<and>
     R = acc @ take j es \<and>
     fv' = ((\<lambda>y. (y + 1) mod m_total_log_entries s) ^^ j) fv \<and>
     s' = s\<lparr>m_log_entries := drop j es, m_block_to_log_entry_map := M',
             log_entries := bump_refs d (log_entries s)\<rparr> \<and>
     (\<forall>i<j. completed (log_entries s (es ! i)) \<and>
        (is_write (ram_entry (log_entries s (es ! i))) \<longrightarrow>
           flushed (log_entries s (es ! i)) \<and> reader_count (log_entries s (es ! i)) = 0) \<and>
        log_entry_index (log_entries s (es ! i)) =
          ((\<lambda>y. (y + 1) mod m_total_log_entries s) ^^ i) fv)"
  using assms
proof (induction es arbitrary: s fv acc)
  case Nil
  then have "s' = s\<lparr>m_log_entries := drop 0 [], m_block_to_log_entry_map := m_block_to_log_entry_map s,
                     log_entries := bump_refs (\<lambda>q. 0) (log_entries s)\<rparr>"
    and "R = acc" and "fv' = fv" and "s' = s"
    by simp_all
  then show ?case
    by (intro exI [of _ 0] exI [of _ "m_block_to_log_entry_map s"] exI [of _ "\<lambda>q. 0"]) simp
next
  case (Cons entry rest)
  let ?f = "\<lambda>y. (y + 1) mod m_total_log_entries s"
  show ?case
  proof (cases "length acc < k \<and> can_retire_entry (log_entries s entry)")
    case False
    with Cons.prems have "s' = s" "R = acc" "fv' = fv" by auto
    with Cons.prems(2)
    have "s' = s\<lparr>m_log_entries := drop 0 (entry # rest),
                  m_block_to_log_entry_map := m_block_to_log_entry_map s,
                  log_entries := bump_refs (\<lambda>q. 0) (log_entries s)\<rparr>"
      by simp
    moreover have "k \<le> length acc \<or> \<not> can_retire_entry (log_entries s entry)"
      using False by auto
    ultimately show ?thesis using \<open>R = acc\<close> \<open>fv' = fv\<close> \<open>s' = s\<close>
      by (intro exI [of _ 0] exI [of _ "m_block_to_log_entry_map s"] exI [of _ "\<lambda>q. 0"]) auto
  next
    case True
    from retire_entries_scan_step [OF Cons.prems(1) True]
    obtain M2 d2 where
      run: "retire_entries_scan
              (s\<lparr>m_log_entries := rest, m_block_to_log_entry_map := M2,
                 log_entries := bump_refs d2 (log_entries s)\<rparr>)
              rest (?f fv) (acc @ [entry]) k = Inr (s', fv', R)"
      and e0: "log_entry_index (log_entries s entry) = fv"
        "completed (log_entries s entry)"
        "is_write (ram_entry (log_entries s entry)) \<longrightarrow>
           flushed (log_entries s entry) \<and> reader_count (log_entries s entry) = 0"
      by blast
    let ?s2 = "s\<lparr>m_log_entries := rest, m_block_to_log_entry_map := M2,
                 log_entries := bump_refs d2 (log_entries s)\<rparr>"
    have m2: "m_log_entries ?s2 = rest" by simp
    from Cons.IH [OF run m2]
    obtain j M' d where
      j: "j \<le> length rest" "j = 0 \<or> length (acc @ [entry]) + j \<le> k"
      and stop: "k \<le> length (acc @ [entry]) + j \<or> j = length rest \<or>
          \<not> can_retire_entry (log_entries ?s2 (rest ! j))"
      and R: "R = (acc @ [entry]) @ take j rest"
      and fv': "fv' = (?f ^^ j) (?f fv)"
      and s': "s' = ?s2\<lparr>m_log_entries := drop j rest, m_block_to_log_entry_map := M',
                       log_entries := bump_refs d (log_entries ?s2)\<rparr>"
      and each: "\<forall>i<j. completed (log_entries ?s2 (rest ! i)) \<and>
          (is_write (ram_entry (log_entries ?s2 (rest ! i))) \<longrightarrow>
             flushed (log_entries ?s2 (rest ! i)) \<and>
             reader_count (log_entries ?s2 (rest ! i)) = 0) \<and>
          log_entry_index (log_entries ?s2 (rest ! i)) = (?f ^^ i) (?f fv)"
      by auto
    have a: "Suc j \<le> length (entry # rest)" using j(1) by simp
    have b: "Suc j = 0 \<or> length acc + Suc j \<le> k" using j(2) True by auto
    have b': "k \<le> length acc + Suc j \<or> Suc j = length (entry # rest) \<or>
          \<not> can_retire_entry (log_entries s ((entry # rest) ! Suc j))"
      using stop by simp
    have c: "R = acc @ take (Suc j) (entry # rest)" using R by simp
    have sw: "(?f ^^ i) (?f fv) = (?f ^^ Suc i) fv" for i
      by (rule funpow_Suc_shift [where f = ?f])
    have d: "fv' = (?f ^^ Suc j) fv" using fv' sw by (simp only:)
    have e: "s' = s\<lparr>m_log_entries := drop (Suc j) (entry # rest),
                   m_block_to_log_entry_map := M',
                   log_entries := bump_refs (\<lambda>q. d2 q + d q) (log_entries s)\<rparr>"
      using s' by (simp add: bump_refs_bump)
    have f: "completed (log_entries s ((entry # rest) ! i)) \<and>
        (is_write (ram_entry (log_entries s ((entry # rest) ! i))) \<longrightarrow>
           flushed (log_entries s ((entry # rest) ! i)) \<and>
           reader_count (log_entries s ((entry # rest) ! i)) = 0) \<and>
        log_entry_index (log_entries s ((entry # rest) ! i)) = (?f ^^ i) fv"
      if "i < Suc j" for i
    proof (cases i)
      case 0
      then show ?thesis using e0 by simp
    next
      case (Suc i')
      then have "i' < j" using that by simp
      with each show ?thesis unfolding Suc by (simp add: sw del: funpow.simps)
    qed
    show ?thesis
      using a b b' c d e f
      by (intro exI [of _ "Suc j"] exI [of _ M'] exI [of _ "\<lambda>q. d2 q + d q"]) blast
  qed
qed

lemma retire_entries_scan_stop:
  "k \<le> length acc \<Longrightarrow> retire_entries_scan s es fv acc k = Inr (s, fv, acc)"
  by (cases es) simp_all

text \<open>One round of the loop does the same whatever the limit, as long as it allows it.\<close>

lemma retire_entries_scan_round:
  assumes r: "retire_entries_scan s (entry # rest) fv acc k = Inr (s', fv', R)"
    and go: "length acc < k \<and> can_retire_entry (log_entries s entry)"
  shows "\<exists>s2.
      (\<forall>k'. length acc < k' \<longrightarrow>
         retire_entries_scan s (entry # rest) fv acc k' =
         retire_entries_scan s2 rest ((fv + 1) mod m_total_log_entries s) (acc @ [entry]) k') \<and>
      m_log_entries s2 = rest \<and>
      completed (log_entries s2 entry) \<and>
      (is_write (ram_entry (log_entries s2 entry)) \<longrightarrow>
         flushed (log_entries s2 entry) \<and> reader_count (log_entries s2 entry) = 0 \<and>
         referring_map_entries (log_entries s2 entry) = 0)"
proof (cases "is_write (ram_entry (log_entries s entry))")
  case True
  let ?s1 = "s\<lparr>m_log_entries := rest\<rparr>"
  from r go True obtain s2 where
    rm: "remove_log_entry_locked ?s1 entry = Inr s2"
    by (auto simp: Let_def split: if_splits sum.splits)
  from remove_log_entry_locked_frame [OF rm] obtain M2 d2 where
    f: "s2 = ?s1\<lparr>m_block_to_log_entry_map := M2, log_entries := bump_refs d2 (log_entries ?s1)\<rparr>"
    by blast
  have pass: "log_entry_index (log_entries s entry) = fv" "completed (log_entries s entry)"
    "m_total_log_entries s \<noteq> 0" "\<not> flushing (log_entries s2 entry)"
    "flushed (log_entries s2 entry)" "reader_count (log_entries s2 entry) = 0"
    "referring_map_entries (log_entries s2 entry) = 0"
    using r go True rm by (auto simp: Let_def split: if_splits)
  have "retire_entries_scan s (entry # rest) fv acc k' =
        retire_entries_scan s2 rest ((fv + 1) mod m_total_log_entries s) (acc @ [entry]) k'"
    if "length acc < k'" for k'
    using that go True rm pass by (simp add: Let_def)
  moreover have "m_log_entries s2 = rest" "completed (log_entries s2 entry)"
    using f pass(2) by simp_all
  ultimately show ?thesis using pass(5,6,7) by blast
next
  case False
  let ?s1 = "s\<lparr>m_log_entries := rest\<rparr>"
  have pass: "log_entry_index (log_entries s entry) = fv" "completed (log_entries s entry)"
    "m_total_log_entries s \<noteq> 0"
    using r go False by (auto simp: Let_def split: if_splits)
  have "retire_entries_scan s (entry # rest) fv acc k' =
        retire_entries_scan ?s1 rest ((fv + 1) mod m_total_log_entries s) (acc @ [entry]) k'"
    if "length acc < k'" for k'
    using that go False pass by (simp add: Let_def)
  moreover have "m_log_entries ?s1 = rest" "completed (log_entries ?s1 entry)"
    "\<not> is_write (ram_entry (log_entries ?s1 entry))"
    using pass(2) False by simp_all
  ultimately show ?thesis by blast
qed

lemma retire_entries_scan_prefix:
  assumes "retire_entries_scan s es fv acc k = Inr (s', fv', R)"
    and "i < length R - length acc"
  shows "\<exists>s_i fv_i.
     retire_entries_scan s es fv acc (length acc + Suc i) =
       Inr (s_i, fv_i, acc @ take (Suc i) es) \<and>
     completed (log_entries s_i (es ! i)) \<and>
     (is_write (ram_entry (log_entries s_i (es ! i))) \<longrightarrow>
        flushed (log_entries s_i (es ! i)) \<and> reader_count (log_entries s_i (es ! i)) = 0 \<and>
        referring_map_entries (log_entries s_i (es ! i)) = 0)"
  using assms
proof (induction es arbitrary: s fv acc i)
  case Nil
  then show ?case by simp
next
  case (Cons entry rest)
  show ?case
  proof (cases "length acc < k \<and> can_retire_entry (log_entries s entry)")
    case False
    with Cons.prems(1) have "R = acc" by auto
    with Cons.prems(2) show ?thesis by simp
  next
    case True
    from retire_entries_scan_round [OF Cons.prems(1) True]
    obtain s2 where
      same: "\<And>k'. length acc < k' \<Longrightarrow>
         retire_entries_scan s (entry # rest) fv acc k' =
         retire_entries_scan s2 rest ((fv + 1) mod m_total_log_entries s) (acc @ [entry]) k'"
      and props: "completed (log_entries s2 entry)"
        "is_write (ram_entry (log_entries s2 entry)) \<longrightarrow>
           flushed (log_entries s2 entry) \<and> reader_count (log_entries s2 entry) = 0 \<and>
           referring_map_entries (log_entries s2 entry) = 0"
      by blast
    let ?fv1 = "(fv + 1) mod m_total_log_entries s"
    have full: "retire_entries_scan s2 rest ?fv1 (acc @ [entry]) k = Inr (s', fv', R)"
      using same [of k] True Cons.prems(1) by simp
    show ?thesis
    proof (cases i)
      case 0
      have "retire_entries_scan s (entry # rest) fv acc (length acc + Suc 0) =
            retire_entries_scan s2 rest ?fv1 (acc @ [entry]) (length acc + Suc 0)"
        by (rule same) simp
      also have "\<dots> = Inr (s2, ?fv1, acc @ [entry])"
        by (rule retire_entries_scan_stop) simp
      finally show ?thesis using props 0 by simp
    next
      case (Suc i')
      have i': "i' < length R - length (acc @ [entry])" using Cons.prems(2) Suc by simp
      from Cons.IH [OF full i']
      obtain s_i fv_i where
        run: "retire_entries_scan s2 rest ?fv1 (acc @ [entry]) (length (acc @ [entry]) + Suc i') =
                Inr (s_i, fv_i, (acc @ [entry]) @ take (Suc i') rest)"
        and p: "completed (log_entries s_i (rest ! i'))"
          "is_write (ram_entry (log_entries s_i (rest ! i'))) \<longrightarrow>
             flushed (log_entries s_i (rest ! i')) \<and>
             reader_count (log_entries s_i (rest ! i')) = 0 \<and>
             referring_map_entries (log_entries s_i (rest ! i')) = 0"
        by blast
      have "retire_entries_scan s (entry # rest) fv acc (length acc + Suc i) =
            retire_entries_scan s2 rest ?fv1 (acc @ [entry]) (length acc + Suc i)"
        by (rule same) simp
      then have "retire_entries_scan s (entry # rest) fv acc (length acc + Suc i) =
            Inr (s_i, fv_i, acc @ take (Suc i) (entry # rest))"
        using run Suc by simp
      then show ?thesis using p Suc by simp
    qed
  qed
qed

lemma retire_entries_bytes_ring:
  "retire_entries_bytes K s es = Inr s' \<Longrightarrow>
   m_first_free_entry s' = m_first_free_entry s \<and>
   m_first_valid_entry s' = m_first_valid_entry s \<and>
   m_total_log_entries s' = m_total_log_entries s \<and>
   m_free_log_entries s' = m_free_log_entries s \<and>
   m_log_entries s' = m_log_entries s \<and>
   log_entries s' = log_entries s \<and>
   pool_root s' = pool_root s \<and>
   pmem_freed s' = pmem_freed s \<and>
   m_block_to_log_entry_map s' = m_block_to_log_entry_map s"
proof (induction es arbitrary: s)
  case Nil
  then show ?case by simp
next
  case (Cons entry rest)
  show ?case
  proof (cases "is_write (ram_entry (log_entries s entry))")
    case False
    with Cons.prems have "retire_entries_bytes K s rest = Inr s'" by (simp add: Let_def)
    from Cons.IH [OF this] show ?thesis .
  next
    case True
    let ?e = "ram_entry (log_entries s entry)"
    let ?s1 = "s\<lparr>m_bytes_cached := m_bytes_cached s - write_bytes ?e\<rparr>"
    let ?sz = "if write_bytes ?e < MIN_WRITE_ALLOC_SIZE K then MIN_WRITE_ALLOC_SIZE K
               else write_bytes ?e"
    from Cons.prems True
    have "retire_entries_bytes K (?s1\<lparr>m_bytes_allocated := m_bytes_allocated ?s1 - ?sz\<rparr>) rest =
            Inr s'"
      by (simp add: Let_def split: if_splits)
    from Cons.IH [OF this] show ?thesis by simp
  qed
qed

lemma wake_up_ring [simp]:
  "m_first_free_entry (wake_up s) = m_first_free_entry s"
  "m_first_valid_entry (wake_up s) = m_first_valid_entry s"
  "m_total_log_entries (wake_up s) = m_total_log_entries s"
  "m_free_log_entries (wake_up s) = m_free_log_entries s"
  "m_log_entries (wake_up s) = m_log_entries s"
  "pool_root (wake_up s) = pool_root s"
  "pmem_freed (wake_up s) = pmem_freed s"
  "m_block_to_log_entry_map (wake_up s) = m_block_to_log_entry_map s"
  by (simp_all add: wake_up_def Let_def)

text \<open>
  C4: a call of \<^verbatim>\<open>retire_entries\<close> that returns retires the \<open>n\<close> entries at the front of
  \<open>m_log_entries\<close> (the oldest), with \<open>n\<close> at most \<open>frees_per_tx\<close>; it stops at that
  limit, at the end of the list or at the first entry that cannot be retired. The log
  entry indices of the retired entries are \<open>first_valid_entry\<close> and its successors around
  the ring. Each of them, at the time it is retired (in the state the loop has reached
  when it has just taken that entry), is completed and, if a write, flushed, without
  readers and without map entries referring to it. When something was retired, one
  transaction has set the root's \<open>first_valid_entry\<close> to the index after the last retired
  entry and freed the data buffer of every retired write; when nothing was, the state is
  unchanged.
\<close>

theorem retire_entries_retires_oldest:
  assumes r: "retire_entries K s frees_per_tx tx_commits = Inr (s', retired)"
  shows "\<exists>n. n \<le> frees_per_tx \<and> n \<le> length (m_log_entries s) \<and> retired = (n \<noteq> 0) \<and>
     m_log_entries s' = drop n (m_log_entries s) \<and>
     (n = frees_per_tx \<or> n = length (m_log_entries s) \<or>
      \<not> can_retire_entry (log_entries s (m_log_entries s ! n))) \<and>
     (\<forall>i<n.
        log_entry_index (log_entries s (m_log_entries s ! i)) =
          ((\<lambda>y. (y + 1) mod m_total_log_entries s) ^^ i) (m_first_valid_entry s) \<and>
        (\<exists>s_i fv_i.
           retire_entries_scan s (m_log_entries s) (m_first_valid_entry s) [] (Suc i) =
             Inr (s_i, fv_i, take (Suc i) (m_log_entries s)) \<and>
           completed (log_entries s_i (m_log_entries s ! i)) \<and>
           (is_write (ram_entry (log_entries s_i (m_log_entries s ! i))) \<longrightarrow>
              flushed (log_entries s_i (m_log_entries s ! i)) \<and>
              reader_count (log_entries s_i (m_log_entries s ! i)) = 0 \<and>
              referring_map_entries (log_entries s_i (m_log_entries s ! i)) = 0))) \<and>
     (if n = 0 then s' = s
      else tx_commits \<and>
        first_valid_entry (pool_root s') =
          ((\<lambda>y. (y + 1) mod m_total_log_entries s) ^^ n) (m_first_valid_entry s) \<and>
        m_first_valid_entry s' = first_valid_entry (pool_root s') \<and>
        pmem_freed s' = pmem_freed s @
          map (\<lambda>p. write_data (ram_entry (log_entries s p)))
            (filter (\<lambda>p. is_write (ram_entry (log_entries s p))) (take n (m_log_entries s))))"
proof -
  let ?es = "m_log_entries s" and ?fv = "m_first_valid_entry s"
  let ?f = "\<lambda>y. (y + 1) mod m_total_log_entries s"
  from r obtain s1 fv1 R where
    sc: "retire_entries_scan s ?es ?fv [] frees_per_tx = Inr (s1, fv1, R)"
    by (auto simp: retire_entries_def Let_def split: sum.splits)
  from retire_entries_scan_result [OF sc refl]
  obtain j M' d where raw:
    "j \<le> length ?es \<and> (j = 0 \<or> length ([] :: nat list) + j \<le> frees_per_tx) \<and>
     (j = 0 \<longrightarrow> s1 = s) \<and>
     (frees_per_tx \<le> length ([] :: nat list) + j \<or> j = length ?es \<or>
      \<not> can_retire_entry (log_entries s (?es ! j))) \<and>
     R = [] @ take j ?es \<and> fv1 = (?f ^^ j) ?fv \<and>
     s1 = s\<lparr>m_log_entries := drop j ?es, m_block_to_log_entry_map := M',
             log_entries := bump_refs d (log_entries s)\<rparr> \<and>
     (\<forall>i<j. completed (log_entries s (?es ! i)) \<and>
        (is_write (ram_entry (log_entries s (?es ! i))) \<longrightarrow>
           flushed (log_entries s (?es ! i)) \<and> reader_count (log_entries s (?es ! i)) = 0) \<and>
        log_entry_index (log_entries s (?es ! i)) = (?f ^^ i) ?fv)"
    by blast
  have j: "j \<le> length ?es" "j = 0 \<or> j \<le> frees_per_tx" "j = 0 \<longrightarrow> s1 = s"
    and stop: "frees_per_tx \<le> j \<or> j = length ?es \<or>
      \<not> can_retire_entry (log_entries s (?es ! j))"
    and R: "R = take j ?es"
    and fv1: "fv1 = (?f ^^ j) ?fv"
    and s1: "s1 = s\<lparr>m_log_entries := drop j ?es, m_block_to_log_entry_map := M',
                     log_entries := bump_refs d (log_entries s)\<rparr>"
    and idx: "\<forall>i<j. log_entry_index (log_entries s (?es ! i)) = (?f ^^ i) ?fv"
    using raw unfolding list.size append_Nil add_0 by blast+
  have lR: "length R = j" using R j(1) by simp
  have each: "\<exists>s_i fv_i.
           retire_entries_scan s ?es ?fv [] (Suc i) = Inr (s_i, fv_i, take (Suc i) ?es) \<and>
           completed (log_entries s_i (?es ! i)) \<and>
           (is_write (ram_entry (log_entries s_i (?es ! i))) \<longrightarrow>
              flushed (log_entries s_i (?es ! i)) \<and>
              reader_count (log_entries s_i (?es ! i)) = 0 \<and>
              referring_map_entries (log_entries s_i (?es ! i)) = 0)"
    if "i < j" for i
    using retire_entries_scan_prefix [OF sc, of i] that lR by simp
  have a: "j \<le> frees_per_tx" using j(2) by auto
  have stop': "j = frees_per_tx \<or> j = length ?es \<or>
      \<not> can_retire_entry (log_entries s (?es ! j))"
    using stop a by auto
  show ?thesis
  proof (cases "R = []")
    case True
    then have j0: "j = 0" using lR by simp
    have "s' = s1" "retired = False" using r sc True by (simp_all add: retire_entries_def Let_def)
    then have "s' = s" "retired = (j \<noteq> 0)" using j(3) j0 by simp_all
    then show ?thesis using j0 stop' by (intro exI [of _ 0]) simp
  next
    case False
    then have jn: "j \<noteq> 0" using R by auto
    let ?s2 = "s1\<lparr>pool_root := (pool_root s1)\<lparr>first_valid_entry := fv1\<rparr>,
                   pmem_freed := pmem_freed s1 @
                     map (\<lambda>entry. write_data (ram_entry (log_entries s1 entry)))
                       (filter (\<lambda>entry. is_write (ram_entry (log_entries s1 entry))) R)\<rparr>"
    from r sc False obtain s3 where
      tx: "tx_commits" and ret: "retired"
      and by3: "retire_entries_bytes K
              (?s2\<lparr>m_first_valid_entry := fv1,
                    m_free_log_entries := m_free_log_entries ?s2 + of_nat (length R)\<rparr>) R =
            Inr s3"
      and s': "s' = wake_up (s3\<lparr>m_alloc_failed_since_retire := False\<rparr>)"
      by (auto simp: retire_entries_def Let_def split: sum.splits if_splits)
    note b3 = retire_entries_bytes_ring [OF by3]
    have b: "m_log_entries s' = drop j ?es" using b3 s' s1 by simp
    have c: "first_valid_entry (pool_root s') = (?f ^^ j) ?fv"
      "m_first_valid_entry s' = first_valid_entry (pool_root s')"
      using b3 s' s1 fv1 by simp_all
    have e: "pmem_freed s' = pmem_freed s @
          map (\<lambda>p. write_data (ram_entry (log_entries s p)))
            (filter (\<lambda>p. is_write (ram_entry (log_entries s p))) (take j ?es))"
      using b3 s' s1 R by simp
    show ?thesis
      using a j(1) ret jn b stop' idx each tx c e by (intro exI [of _ j]) simp
  qed
qed

lemma retire_entries_scan_ram:
  assumes "retire_entries_scan s es fv acc k = Inr (s', fv', R)" and "m_log_entries s = es"
  shows "ram_entry (log_entries s' q) = ram_entry (log_entries s q)"
proof -
  from retire_entries_scan_result [OF assms]
  obtain j M' d where
    "s' = s\<lparr>m_log_entries := drop j es, m_block_to_log_entry_map := M',
             log_entries := bump_refs d (log_entries s)\<rparr>"
    by blast
  then show ?thesis by simp
qed

lemma ex_retire_run:
  "case retire_entries K0 ex_retire_state 8 True of
     Inl _ \<Rightarrow> False
   | Inr (s', b) \<Rightarrow> b \<and> m_log_entries s' = [2] \<and> first_valid_entry (pool_root s') = 1 \<and>
       pmem_freed s' = [77] \<and> referring_map_entries (log_entries s' 1) = 0 \<and>
       m_block_to_log_entry_map s' =
         [\<lparr>block_extent = \<lparr>block_start = 20, block_end = 29\<rparr>, log_entry = Some 2\<rparr>] \<and>
       m_free_log_entries s' = 6"
  by (simp add: retire_entries_def ex_retire_state_def rwl0_def K0_def can_retire_entry_def
      is_write_def new_WriteLogEntry_def new_WriteLogPmemEntry_def remove_log_entry_locked_def
      find_map_entries_locked_def set_equal_range_def WriteLogMapEntryCompare_def
      WriteLogEntry_block_extent_def block_extent_of_bytes_def remove_map_entry_locked_def
      set_find_def set_lower_bound_def set_erase_def wake_up_def Let_def word_le_nat_alt
      word_less_nat_alt)

theorem retire_entries_retires_oldest_witness:
  "\<exists>s' s0 fv0.
     retire_entries K0 ex_retire_state 8 True = Inr (s', True) \<and>
     m_log_entries s' = [2] \<and>
     retire_entries_scan ex_retire_state [1, 2] 0 [] 1 = Inr (s0, fv0, [1]) \<and>
     completed (log_entries s0 1) \<and> flushed (log_entries s0 1) \<and>
     reader_count (log_entries s0 1) = 0 \<and> referring_map_entries (log_entries s0 1) = 0 \<and>
     first_valid_entry (pool_root s') = 1 \<and> m_first_valid_entry s' = 1 \<and>
     pmem_freed s' = [77]"
proof -
  from ex_retire_run obtain s' where
    run: "retire_entries K0 ex_retire_state 8 True = Inr (s', True)"
    and after: "m_log_entries s' = [2]"
    by (auto split: sum.splits)
  have ex: "m_log_entries ex_retire_state = [1, 2]" "m_first_valid_entry ex_retire_state = 0"
    "m_total_log_entries ex_retire_state = 8" "pmem_freed ex_retire_state = []"
    "is_write (ram_entry (log_entries ex_retire_state 1))"
    "write_data (ram_entry (log_entries ex_retire_state 1)) = 77"
    by (simp_all add: ex_retire_state_def rwl0_def is_write_def new_WriteLogPmemEntry_def)
  from retire_entries_retires_oldest [OF run]
  obtain n where n: "m_log_entries s' = drop n (m_log_entries ex_retire_state)"
    and each: "\<forall>i<n.
        log_entry_index (log_entries ex_retire_state (m_log_entries ex_retire_state ! i)) =
          ((\<lambda>y. (y + 1) mod m_total_log_entries ex_retire_state) ^^ i)
            (m_first_valid_entry ex_retire_state) \<and>
        (\<exists>s_i fv_i.
           retire_entries_scan ex_retire_state (m_log_entries ex_retire_state)
             (m_first_valid_entry ex_retire_state) [] (Suc i) =
             Inr (s_i, fv_i, take (Suc i) (m_log_entries ex_retire_state)) \<and>
           completed (log_entries s_i (m_log_entries ex_retire_state ! i)) \<and>
           (is_write (ram_entry (log_entries s_i (m_log_entries ex_retire_state ! i))) \<longrightarrow>
              flushed (log_entries s_i (m_log_entries ex_retire_state ! i)) \<and>
              reader_count (log_entries s_i (m_log_entries ex_retire_state ! i)) = 0 \<and>
              referring_map_entries (log_entries s_i (m_log_entries ex_retire_state ! i)) = 0))"
    and fin: "if n = 0 then s' = ex_retire_state
      else True \<and>
        first_valid_entry (pool_root s') =
          ((\<lambda>y. (y + 1) mod m_total_log_entries ex_retire_state) ^^ n)
            (m_first_valid_entry ex_retire_state) \<and>
        m_first_valid_entry s' = first_valid_entry (pool_root s') \<and>
        pmem_freed s' = pmem_freed ex_retire_state @
          map (\<lambda>p. write_data (ram_entry (log_entries ex_retire_state p)))
            (filter (\<lambda>p. is_write (ram_entry (log_entries ex_retire_state p)))
               (take n (m_log_entries ex_retire_state)))"
    by blast
  have n1: "n = 1"
  proof -
    have "length (drop n [1, 2 :: nat]) = 1" using n after ex(1) by simp
    then show ?thesis by simp
  qed
  from each n1 obtain s0 fv0 where
    s0: "retire_entries_scan ex_retire_state [1, 2] 0 [] 1 = Inr (s0, fv0, [1])"
      "completed (log_entries s0 1)"
      "is_write (ram_entry (log_entries s0 1)) \<longrightarrow>
         flushed (log_entries s0 1) \<and> reader_count (log_entries s0 1) = 0 \<and>
         referring_map_entries (log_entries s0 1) = 0"
    by (auto simp: ex)
  have w: "is_write (ram_entry (log_entries s0 1))"
    using retire_entries_scan_ram [OF s0(1)] ex(1,5) by simp
  have f: "first_valid_entry (pool_root s') = 1" "m_first_valid_entry s' = 1"
    "pmem_freed s' = [77]"
    using fin n1 ex by simp_all
  show ?thesis using run after s0 w f by blast
qed

section \<open>Theorems: the ring of log slots\<close>

lemma u32_succ_mod:
  assumes "(x :: u32) < n"
  shows "uint ((x + 1) mod n) = (uint x + 1) mod uint n"
proof -
  have "uint x < uint n" using assms by (simp add: word_less_def)
  moreover have "uint n < 2 ^ 32" using uint_bounded [of n] by simp
  ultimately have "uint x + 1 < 2 ^ 32" by simp
  then have "uint (x + 1) = uint x + 1" by (simp add: uint_add_lem [THEN iffD1])
  then show ?thesis by (simp add: uint_mod)
qed

lemma ring_next_lt:
  assumes "(x :: u32) < n"
  shows "(x + 1) mod n < n"
proof -
  have "uint n \<noteq> 0" using assms by (auto simp: word_less_def)
  then have "0 < uint n" by (simp add: order_less_le)
  then show ?thesis by (simp add: word_less_def uint_mod)
qed

lemma ring_next_funpow:
  assumes "(x :: u32) < n"
  shows "((\<lambda>y. (y + 1) mod n) ^^ k) x < n \<and>
         uint (((\<lambda>y. (y + 1) mod n) ^^ k) x) = (uint x + int k) mod uint n"
proof (induction k)
  case 0
  then show ?case using assms by (simp add: word_less_def)
next
  case (Suc k)
  let ?y = "((\<lambda>y. (y + 1) mod n) ^^ k) x"
  have lt: "?y < n" and u: "uint ?y = (uint x + int k) mod uint n" using Suc by simp_all
  have "uint ((?y + 1) mod n) = ((uint x + int k) mod uint n + 1) mod uint n"
    using u32_succ_mod [OF lt] u by simp
  also have "\<dots> = (uint x + int k + 1) mod uint n"
    by (rule mod_add_left_eq)
  also have "uint x + int k + 1 = uint x + int (Suc k)"
    by simp
  finally show ?case using ring_next_lt [OF lt] by simp
qed

lemma ring_used_lt:
  assumes "m_first_free_entry s < m_total_log_entries s"
  shows "int (ring_used s) < uint (m_total_log_entries s)"
proof -
  have "0 \<le> uint (m_first_free_entry s)" by simp
  then have N: "0 < uint (m_total_log_entries s)"
    using assms unfolding word_less_def by (rule order_le_less_trans)
  then show ?thesis by (simp add: ring_used_def)
qed

lemma ring_used_step:
  assumes ff: "m_first_free_entry s < m_total_log_entries s"
    and room: "ring_used s + 1 < unat (m_total_log_entries s)"
    and s': "m_first_free_entry s' = (m_first_free_entry s + 1) mod m_total_log_entries s"
      "m_first_valid_entry s' = m_first_valid_entry s"
      "m_total_log_entries s' = m_total_log_entries s"
  shows "ring_used s' = ring_used s + 1"
proof -
  let ?N = "uint (m_total_log_entries s)"
  let ?ff = "uint (m_first_free_entry s)"
  let ?fv = "uint (m_first_valid_entry s)"
  have "0 \<le> ?ff" by simp
  then have N: "0 < ?N" using ff unfolding word_less_def by (rule order_le_less_trans)
  have "int (ring_used s') = ((?ff + 1) mod ?N - ?fv) mod ?N"
    using N u32_succ_mod [OF ff] by (simp add: ring_used_def s')
  also have "\<dots> = (?ff + 1 - ?fv) mod ?N"
    by (rule mod_diff_left_eq)
  also have "\<dots> = (?ff - ?fv + 1) mod ?N"
    by (simp add: algebra_simps)
  also have "\<dots> = ((?ff - ?fv) mod ?N + 1) mod ?N"
    by (rule mod_add_left_eq [symmetric])
  also have "\<dots> = (int (ring_used s) + 1) mod ?N"
    using N by (simp add: ring_used_def)
  also have "\<dots> = int (ring_used s) + 1"
  proof -
    have "int (ring_used s + 1) < int (unat (m_total_log_entries s))"
      using room by (simp only: of_nat_less_iff)
    then have "int (ring_used s) + 1 < ?N" by simp
    then show ?thesis by simp
  qed
  finally show ?thesis by simp
qed

lemma ring_used_retire:
  assumes ff: "m_first_free_entry s < m_total_log_entries s"
    and n: "n \<le> ring_used s"
    and s': "uint (m_first_valid_entry s') =
               (uint (m_first_valid_entry s) + int n) mod uint (m_total_log_entries s)"
      "m_first_free_entry s' = m_first_free_entry s"
      "m_total_log_entries s' = m_total_log_entries s"
  shows "ring_used s' = ring_used s - n"
proof -
  let ?N = "uint (m_total_log_entries s)"
  let ?ff = "uint (m_first_free_entry s)"
  let ?fv = "uint (m_first_valid_entry s)"
  have "0 \<le> ?ff" by simp
  then have N: "0 < ?N" using ff unfolding word_less_def by (rule order_le_less_trans)
  have "int (ring_used s') = (?ff - (?fv + int n) mod ?N) mod ?N"
    using N by (simp add: ring_used_def s')
  also have "\<dots> = (?ff - (?fv + int n)) mod ?N"
    by (rule mod_diff_right_eq)
  also have "\<dots> = (?ff - ?fv - int n) mod ?N"
    by (simp add: algebra_simps)
  also have "\<dots> = ((?ff - ?fv) mod ?N - int n) mod ?N"
    by (rule mod_diff_left_eq [symmetric])
  also have "\<dots> = (int (ring_used s) - int n) mod ?N"
    using N by (simp add: ring_used_def)
  also have "\<dots> = int (ring_used s) - int n"
    using ring_used_lt [OF ff] n by simp
  finally show ?thesis using n by simp
qed

lemma ring_used_eq:
  assumes "m_first_free_entry s' = m_first_free_entry s"
    "m_first_valid_entry s' = m_first_valid_entry s"
    "m_total_log_entries s' = m_total_log_entries s"
  shows "ring_used s' = ring_used s"
  using assms by (simp add: ring_used_def)

lemma ring_new_pool:
  assumes r: "rwl_init_new_pool K s effective_pool_size small_write_size tx_commits = Inr (s', True)"
    and mx: "MAX_LOG_ENTRIES K < 2 ^ 32"
  shows "ring_accounting s' 0"
proof -
  define n0 where "n0 = effective_pool_size div small_write_size"
  define n where "n = (if n0 > MAX_LOG_ENTRIES K then MAX_LOG_ENTRIES K else n0)"
  have n2: "2 < n" and s': "m_total_log_entries s' = ucast n"
    "m_free_log_entries s' = ucast n - 1" "m_first_free_entry s' = 0" "m_first_valid_entry s' = 0"
    using r unfolding rwl_init_new_pool_def n_def n0_def
    by (auto simp: Let_def split: if_splits)
  have "n \<le> MAX_LOG_ENTRIES K" unfolding n_def by auto
  then have "n < 2 ^ 32" using mx by simp
  then have u: "unat (ucast n :: u32) = unat n"
    by (simp add: unsigned_ucast_eq word_less_nat_alt take_bit_nat_eq_self)
  have "2 < unat n" using n2 by (simp add: word_less_nat_alt)
  then have N: "2 < unat (m_total_log_entries s')" using u s' by simp
  then have nz: "m_total_log_entries s' \<noteq> 0" by auto
  have f: "unat (m_free_log_entries s') = unat (m_total_log_entries s') - 1"
    using s' nz by (simp add: unat_minus_one)
  have used: "ring_used s' = 0" by (simp add: ring_used_def s')
  have "(0 :: u32) < m_total_log_entries s'" using nz by (simp add: word_neq_0_conv)
  then show ?thesis using f used s'(3,4) by (simp add: ring_accounting_def)
qed

lemma ring_existing_pool:
  assumes r: "rwl_init_existing_pool K s root = Inr s'"
    and le: "first_valid_entry root \<le> first_free_entry root"
    and lt: "first_free_entry root < num_log_entries root"
  shows "ring_accounting s' 0"
proof -
  let ?N = "num_log_entries root" and ?ff = "first_free_entry root"
  let ?fv = "first_valid_entry root"
  have s': "m_total_log_entries s' = ?N" "m_first_free_entry s' = ?ff"
    "m_first_valid_entry s' = ?fv" "m_free_log_entries s' = ?N - (?ff - ?fv) - 1"
    using r le unfolding rwl_init_existing_pool_def
    by (auto simp: Let_def split: if_splits)
  have a: "uint ?fv \<le> uint ?ff" using le by (simp add: word_le_def)
  have b: "uint ?ff < uint ?N" using lt by (simp add: word_less_def)
  have c: "0 \<le> uint ?fv" by simp
  have c': "uint ?ff - uint ?fv < uint ?N" using b uint_ge_0 [of ?fv] by linarith
  have "(uint ?ff - uint ?fv) mod uint ?N = uint ?ff - uint ?fv"
    using a c' by (intro mod_pos_pos_trivial) simp_all
  then have used: "int (ring_used s') = uint ?ff - uint ?fv"
    using a by (simp add: ring_used_def s')
  have d: "uint (?ff - ?fv) = uint ?ff - uint ?fv" using a by (simp add: uint_sub_if')
  have e: "uint (?N - (?ff - ?fv)) = uint ?N - (uint ?ff - uint ?fv)"
    using c' d by (simp add: uint_sub_if')
  have f: "uint (?N - (?ff - ?fv) - 1) = uint ?N - (uint ?ff - uint ?fv) - 1"
    using c' e by (simp add: uint_sub_if')
  have "int (unat (m_free_log_entries s')) + int (ring_used s') =
        int (unat (m_total_log_entries s')) - 1"
    using f used by (simp add: s')
  moreover have "0 < unat (m_total_log_entries s')"
    using lt by (simp add: s' word_less_nat_alt)
  ultimately have "unat (m_free_log_entries s') + ring_used s' =
        unat (m_total_log_entries s') - 1"
    by linarith
  moreover have "?fv < ?N" using le lt by simp
  ultimately show ?thesis using lt by (simp add: ring_accounting_def s')
qed

lemma ring_alloc_flush:
  assumes r: "alloc_flush_resources s f = Inr (s', b)"
    and inv: "ring_accounting s r"
  shows "ring_accounting s' (if b then r + 1 else r)"
proof (cases b)
  case False
  then have "s' = s" using r by (auto simp: alloc_flush_resources_def split: if_splits)
  then show ?thesis using inv False by simp
next
  case True
  then have nz: "m_free_log_entries s \<noteq> 0"
    and s': "m_free_log_entries s' = m_free_log_entries s - 1"
      "m_first_free_entry s' = m_first_free_entry s"
      "m_first_valid_entry s' = m_first_valid_entry s"
      "m_total_log_entries s' = m_total_log_entries s"
    using r by (auto simp: alloc_flush_resources_def split: if_splits)
  have "unat (m_free_log_entries s') = unat (m_free_log_entries s) - 1"
    using nz by (simp add: s' unat_minus_one)
  moreover have "0 < unat (m_free_log_entries s)" using nz by (simp add: unat_gt_0)
  ultimately show ?thesis
    using inv True ring_used_eq [OF s'(2,3,4)] by (simp add: ring_accounting_def s')
qed

lemma ring_alloc_op:
  assumes "ring_accounting s r" and "length ops \<le> r"
  shows "\<exists>s'. alloc_op_log_entries s ops = Inr s' \<and> ring_accounting s' (r - length ops) \<and>
     m_free_log_entries s' = m_free_log_entries s \<and>
     m_log_entries s' = m_log_entries s @ ops \<and>
     ring_used s' = ring_used s + length ops"
  using assms
proof (induction ops arbitrary: s r)
  case Nil
  then show ?case by simp
next
  case (Cons operation ops)
  let ?e = "log_entries s operation"
  let ?s1 = "s\<lparr>m_first_free_entry := (m_first_free_entry s + 1) mod m_total_log_entries s,
                log_entries := (log_entries s)
                  (operation := ?e\<lparr>log_entry_index := m_first_free_entry s,
                                  ram_entry := (ram_entry ?e)\<lparr>entry_index := m_first_free_entry s,
                                                              entry_valid := True\<rparr>\<rparr>),
                m_log_entries := m_log_entries s @ [operation]\<rparr>"
  have ff: "m_first_free_entry s < m_total_log_entries s"
    and fv: "m_first_valid_entry s < m_total_log_entries s"
    and sum: "unat (m_free_log_entries s) + r + ring_used s = unat (m_total_log_entries s) - 1"
    using Cons.prems(1) by (simp_all add: ring_accounting_def)
  have nz: "m_total_log_entries s \<noteq> 0" using ff by auto
  have r1: "1 \<le> r" using Cons.prems(2) by simp
  have room: "ring_used s + 1 < unat (m_total_log_entries s)"
  proof -
    have "0 < unat (m_total_log_entries s)" using nz by (simp add: unat_gt_0)
    then show ?thesis using sum r1 by linarith
  qed
  have used: "ring_used ?s1 = ring_used s + 1"
    by (rule ring_used_step [OF ff room]) simp_all
  have inv1: "ring_accounting ?s1 (r - 1)"
    using ring_next_lt [OF ff] fv sum r1 used by (simp add: ring_accounting_def)
  have len: "length ops \<le> r - 1" using Cons.prems(2) by simp
  from Cons.IH [OF inv1 len]
  obtain s' where s': "alloc_op_log_entries ?s1 ops = Inr s'"
    "ring_accounting s' (r - 1 - length ops)"
    "m_free_log_entries s' = m_free_log_entries ?s1"
    "m_log_entries s' = m_log_entries ?s1 @ ops"
    "ring_used s' = ring_used ?s1 + length ops"
    by blast
  have "alloc_op_log_entries s (operation # ops) = Inr s'"
    using nz s'(1) by (simp add: Let_def)
  then show ?case using s'(2,3,4,5) used by simp
qed

lemma u32_add_of_nat:
  assumes "unat (x :: u32) + j < 2 ^ 32"
  shows "unat (x + of_nat j) = unat x + j"
proof -
  have j: "j < 2 ^ 32" using assms by simp
  then have "unat (of_nat j :: u32) = j" by (simp add: unat_of_nat take_bit_nat_eq_self)
  moreover from this have "unat x + unat (of_nat j :: u32) < 2 ^ LENGTH(32)" using assms by simp
  ultimately show ?thesis by (simp add: unat_add_lem [THEN iffD1])
qed

lemma ring_retire:
  assumes r: "retire_entries K s k tx_commits = Inr (s', b)"
    and inv: "ring_accounting s r"
    and len: "length (m_log_entries s) \<le> ring_used s"
  shows "ring_accounting s' r \<and>
     ring_used s' = ring_used s - (length (m_log_entries s) - length (m_log_entries s'))"
proof -
  let ?es = "m_log_entries s" and ?fv = "m_first_valid_entry s"
  let ?N = "m_total_log_entries s"
  let ?f = "\<lambda>y. (y + 1) mod ?N"
  have ff: "m_first_free_entry s < ?N" and fv: "?fv < ?N"
    and sum: "unat (m_free_log_entries s) + r + ring_used s = unat ?N - 1"
    using inv by (simp_all add: ring_accounting_def)
  from r obtain s1 fv1 R where
    sc: "retire_entries_scan s ?es ?fv [] k = Inr (s1, fv1, R)"
    by (auto simp: retire_entries_def Let_def split: sum.splits)
  from retire_entries_scan_result [OF sc refl]
  obtain j M' d where j: "j \<le> length ?es" and R: "R = take j ?es"
    and fv1: "fv1 = (?f ^^ j) ?fv"
    and s1: "s1 = s\<lparr>m_log_entries := drop j ?es, m_block_to_log_entry_map := M',
                     log_entries := bump_refs d (log_entries s)\<rparr>"
    by auto
  have lR: "length R = j" using R j by simp
  show ?thesis
  proof (cases "R = []")
    case True
    then have "s' = s1" using r sc by (simp add: retire_entries_def Let_def)
    moreover have "j = 0" using True lR by simp
    ultimately show ?thesis using inv s1 by (simp add: ring_accounting_def ring_used_def)
  next
    case False
    let ?s2 = "s1\<lparr>pool_root := (pool_root s1)\<lparr>first_valid_entry := fv1\<rparr>,
                   pmem_freed := pmem_freed s1 @
                     map (\<lambda>entry. write_data (ram_entry (log_entries s1 entry)))
                       (filter (\<lambda>entry. is_write (ram_entry (log_entries s1 entry))) R)\<rparr>"
    from r sc False obtain s3 where
      by3: "retire_entries_bytes K
              (?s2\<lparr>m_first_valid_entry := fv1,
                    m_free_log_entries := m_free_log_entries ?s2 + of_nat (length R)\<rparr>) R =
            Inr s3"
      and s': "s' = wake_up (s3\<lparr>m_alloc_failed_since_retire := False\<rparr>)"
      by (auto simp: retire_entries_def Let_def split: sum.splits if_splits)
    note b3 = retire_entries_bytes_ring [OF by3]
    have f': "m_first_free_entry s' = m_first_free_entry s"
      "m_total_log_entries s' = ?N"
      "m_first_valid_entry s' = fv1"
      "m_free_log_entries s' = m_free_log_entries s + of_nat j"
      using b3 s' s1 lR by simp_all
    from ring_next_funpow [OF fv, of j]
    have v1: "fv1 < ?N" and u1: "uint fv1 = (uint ?fv + int j) mod uint ?N"
      using fv1 by simp_all
    have jl: "j \<le> ring_used s" using j len by simp
    have used: "ring_used s' = ring_used s - j"
      by (rule ring_used_retire [OF ff jl]) (simp_all add: f' u1)
    have "unat ?N < 2 ^ 32" using unsigned_less [of ?N] by simp
    then have "unat (m_free_log_entries s) + j < 2 ^ 32" using sum jl by linarith
    then have free: "unat (m_free_log_entries s') = unat (m_free_log_entries s) + j"
      by (simp add: f' u32_add_of_nat)
    have "m_log_entries s' = drop j ?es" using b3 s' s1 by simp
    then have "length ?es - length (m_log_entries s') = j" using j by simp
    then show ?thesis
      using ff v1 sum jl used free by (simp add: ring_accounting_def f')
  qed
qed

text \<open>
  C5, as stated, fails: a slot leaves \<open>m_free_log_entries\<close> when it is reserved, before
  \<^verbatim>\<open>alloc_op_log_entries\<close> moves \<open>m_first_free_entry\<close>. In an empty log of eight slots
  (7 free, 0 used) two flush requests reserve a slot each and a batch of one operation is
  given its slot: 5 slots are free and 1 is used, which makes 6 and not 7.
\<close>

theorem ring_accounting_reserved_counterexample:
  "alloc_flush_resources ex_ring_state 1 = Inr (ex_ring_state_1, True) \<and>
   alloc_flush_resources ex_ring_state_1 2 = Inr (ex_ring_state_2, True) \<and>
   alloc_op_log_entries ex_ring_state_2 [3] = Inr ex_ring_state_3 \<and>
   unat (m_free_log_entries ex_ring_state) + ring_used ex_ring_state = 7 \<and>
   unat (m_free_log_entries ex_ring_state_3) + ring_used ex_ring_state_3 = 6 \<and>
   unat (m_total_log_entries ex_ring_state_3) - 1 = 7"
  by (simp add: alloc_flush_resources_def ex_ring_state_def ex_ring_state_1_def
      ex_ring_state_2_def ex_ring_state_3_def rwl0_def new_C_FlushRequest_def ring_used_def
      Let_def)

text \<open>
  C5 (amended): the ring accounting \<open>free_log_entries + r + ((first_free_entry -
  first_valid_entry) mod N) = N - 1\<close>, where \<open>r\<close> counts the slots reserved and not yet
  allocated. It holds with \<open>r = 0\<close> after pool creation and after a pool re-open whose
  valid entries do not wrap around the end of the ring. The reservation of a flush request
  moves one slot from \<open>free_log_entries\<close> to \<open>r\<close> when a slot is free; log-slot
  allocation for a batch of at most \<open>r\<close> operations moves that many slots from \<open>r\<close> to
  the occupied ones and leaves \<open>free_log_entries\<close> alone; retirement, in a log that lists
  no more entries than the ring has occupied slots, moves the retired slots from the
  occupied ones to \<open>free_log_entries\<close>. One slot is always kept empty.
\<close>

theorem ring_accounting_transitions:
  "(MAX_LOG_ENTRIES K < 2 ^ 32 \<and>
    rwl_init_new_pool K s_new effective_pool_size small_write_size tx_commits = Inr (s_new', True)
      \<longrightarrow> ring_accounting s_new' 0) \<and>
   (first_valid_entry root \<le> first_free_entry root \<and>
    first_free_entry root < num_log_entries root \<and>
    rwl_init_existing_pool K s_open root = Inr s_open'
      \<longrightarrow> ring_accounting s_open' 0) \<and>
   (ring_accounting s_res r_res \<and> alloc_flush_resources s_res f = Inr (s_res', reserved)
      \<longrightarrow> reserved = (m_free_log_entries s_res \<noteq> 0) \<and>
          ring_accounting s_res' (if reserved then r_res + 1 else r_res)) \<and>
   (ring_accounting s_alloc r_alloc \<and> length ops \<le> r_alloc
      \<longrightarrow> (\<exists>s_alloc'. alloc_op_log_entries s_alloc ops = Inr s_alloc' \<and>
             ring_accounting s_alloc' (r_alloc - length ops) \<and>
             m_free_log_entries s_alloc' = m_free_log_entries s_alloc \<and>
             ring_used s_alloc' = ring_used s_alloc + length ops)) \<and>
   (ring_accounting s_ret r_ret \<and> length (m_log_entries s_ret) \<le> ring_used s_ret \<and>
    retire_entries K s_ret frees_per_tx tx_ret = Inr (s_ret', retired)
      \<longrightarrow> ring_accounting s_ret' r_ret \<and>
          ring_used s_ret' =
            ring_used s_ret - (length (m_log_entries s_ret) - length (m_log_entries s_ret')))"
proof (intro conjI impI)
  assume "MAX_LOG_ENTRIES K < 2 ^ 32 \<and>
    rwl_init_new_pool K s_new effective_pool_size small_write_size tx_commits = Inr (s_new', True)"
  then show "ring_accounting s_new' 0" using ring_new_pool by blast
next
  assume "first_valid_entry root \<le> first_free_entry root \<and>
    first_free_entry root < num_log_entries root \<and>
    rwl_init_existing_pool K s_open root = Inr s_open'"
  then show "ring_accounting s_open' 0" using ring_existing_pool by blast
next
  assume a: "ring_accounting s_res r_res \<and> alloc_flush_resources s_res f = Inr (s_res', reserved)"
  then show "reserved = (m_free_log_entries s_res \<noteq> 0)"
    by (auto simp: alloc_flush_resources_def split: if_splits)
  from a show "ring_accounting s_res' (if reserved then r_res + 1 else r_res)"
    using ring_alloc_flush by blast
next
  assume a: "ring_accounting s_alloc r_alloc \<and> length ops \<le> r_alloc"
  then have inv: "ring_accounting s_alloc r_alloc" and len: "length ops \<le> r_alloc" by simp_all
  from ring_alloc_op [OF inv len]
  show "\<exists>s_alloc'. alloc_op_log_entries s_alloc ops = Inr s_alloc' \<and>
             ring_accounting s_alloc' (r_alloc - length ops) \<and>
             m_free_log_entries s_alloc' = m_free_log_entries s_alloc \<and>
             ring_used s_alloc' = ring_used s_alloc + length ops"
    by blast
next
  assume a: "ring_accounting s_ret r_ret \<and> length (m_log_entries s_ret) \<le> ring_used s_ret \<and>
    retire_entries K s_ret frees_per_tx tx_ret = Inr (s_ret', retired)"
  then have inv: "ring_accounting s_ret r_ret"
    and len: "length (m_log_entries s_ret) \<le> ring_used s_ret"
    and run: "retire_entries K s_ret frees_per_tx tx_ret = Inr (s_ret', retired)"
    by simp_all
  from ring_retire [OF run inv len]
  show "ring_accounting s_ret' r_ret"
    and "ring_used s_ret' =
            ring_used s_ret - (length (m_log_entries s_ret) - length (m_log_entries s_ret'))"
    by simp_all
qed

lemma ex_ring_runs:
  "MAX_LOG_ENTRIES K0 < 2 ^ 32"
  "rwl_init_new_pool K0 rwl0 8000 1000 True = Inr (ex_new_pool_state, True)"
  "first_valid_entry ex_pool_root \<le> first_free_entry ex_pool_root"
  "first_free_entry ex_pool_root < num_log_entries ex_pool_root"
  "rwl_init_existing_pool K0 rwl0 ex_pool_root = Inr ex_reopened_state"
  "ring_accounting ex_ring_state 0"
  "alloc_flush_resources ex_ring_state 1 = Inr (ex_ring_state_1, True)"
  "ring_accounting ex_ring_state_2 2"
  "alloc_op_log_entries ex_ring_state_2 [3] = Inr ex_ring_state_3"
  "ring_accounting ex_retire_state 0"
  "length (m_log_entries ex_retire_state) \<le> ring_used ex_retire_state"
  by (simp_all add: rwl_init_new_pool_def rwl_init_existing_pool_def alloc_flush_resources_def
      ex_new_pool_state_def ex_reopened_state_def ex_pool_root_def ex_ring_state_def
      ex_ring_state_1_def ex_ring_state_2_def ex_ring_state_3_def ex_retire_state_def rwl0_def
      K0_def new_C_FlushRequest_def ring_accounting_def ring_used_def Let_def word_le_nat_alt
      word_less_nat_alt)

theorem ring_accounting_transitions_witness:
  "rwl_init_new_pool K0 rwl0 8000 1000 True = Inr (ex_new_pool_state, True) \<and>
   ring_accounting ex_new_pool_state 0 \<and>
   rwl_init_existing_pool K0 rwl0 ex_pool_root = Inr ex_reopened_state \<and>
   ring_accounting ex_reopened_state 0 \<and>
   alloc_flush_resources ex_ring_state 1 = Inr (ex_ring_state_1, True) \<and>
   ring_accounting ex_ring_state_1 1 \<and>
   alloc_op_log_entries ex_ring_state_2 [3] = Inr ex_ring_state_3 \<and>
   ring_accounting ex_ring_state_3 1 \<and>
   (\<exists>s'. retire_entries K0 ex_retire_state 8 True = Inr (s', True) \<and>
         ring_accounting s' 0 \<and> ring_used s' = 1)"
proof -
  note e = ex_ring_runs
  from ex_retire_run obtain s' where
    run: "retire_entries K0 ex_retire_state 8 True = Inr (s', True)"
    and after: "m_log_entries s' = [2]"
    by (auto split: sum.splits)
  have l: "length [3 :: nat] \<le> 2" by simp
  have u: "ring_used ex_retire_state = 2" "m_log_entries ex_retire_state = [1, 2]"
    by (simp_all add: ex_retire_state_def rwl0_def ring_used_def)
  from ring_accounting_transitions
    [where K = K0 and s_new = rwl0 and effective_pool_size = 8000 and small_write_size = 1000
       and tx_commits = True and s_new' = ex_new_pool_state and root = ex_pool_root
       and s_open = rwl0 and s_open' = ex_reopened_state
       and s_res = ex_ring_state and r_res = 0 and f = 1 and s_res' = ex_ring_state_1
       and reserved = True
       and s_alloc = ex_ring_state_2 and r_alloc = 2 and ops = "[3]"
       and s_ret = ex_retire_state and r_ret = 0 and frees_per_tx = 8 and tx_ret = True
       and s_ret' = s' and retired = True]
  have "ring_accounting ex_new_pool_state 0" "ring_accounting ex_reopened_state 0"
    "ring_accounting ex_ring_state_1 1" "ring_accounting ex_ring_state_3 1"
    "ring_accounting s' 0" "ring_used s' = 1"
    using e run l after u by simp_all
  then show ?thesis using e run by blast
qed

end
